theory Spec2Isabelle
  imports Main "HOL-Library.Word"
begin

text \<open>
  A shallow embedding of the word pipeline of the speed reader (the sample-document module:
  \<open>calculateOrpCore\<close>, \<open>splitLeadingCoreTrailing\<close>, the two normalizers,
  \<open>tokensFromText\<close> and \<open>processTokens\<close>), and the proofs of the properties its
  specification states.
\<close>

section \<open>JavaScript strings\<close>

text \<open>
  A JavaScript string is a sequence of UTF-16 code units; \<open>length\<close>, regular expressions
  without the \<open>u\<close> flag and \<open>trim\<close> all work on code units. \<open>js\<close> writes an ASCII
  literal as such a sequence.
\<close>

type_synonym jschar = "16 word"
type_synonym jsstring = "jschar list"

definition js :: "string \<Rightarrow> jsstring" where
  "js s = map of_char s"

text \<open>
  The characters that \<^verbatim>\<open>\s\<close> matches and that \<open>trim\<close> strips: the WhiteSpace and
  LineTerminator code points of ECMAScript (TAB, LF, VT, FF, CR, SP, NBSP, U+1680,
  U+2000..U+200A, LS, PS, U+202F, U+205F, U+3000, U+FEFF).
\<close>

definition is_space :: "jschar \<Rightarrow> bool" where
  "is_space c \<longleftrightarrow>
     c = 0x09 \<or> c = 0x0A \<or> c = 0x0B \<or> c = 0x0C \<or> c = 0x0D \<or> c = 0x20 \<or>
     c = 0xA0 \<or> c = 0x1680 \<or> (0x2000 \<le> c \<and> c \<le> 0x200A) \<or>
     c = 0x2028 \<or> c = 0x2029 \<or> c = 0x202F \<or> c = 0x205F \<or> c = 0x3000 \<or> c = 0xFEFF"

definition non_space :: "jschar \<Rightarrow> bool" where
  "non_space c \<longleftrightarrow> \<not> is_space c"

text \<open>The class \<^verbatim>\<open>[A-Za-z0-9]\<close>, its complement, and the class of apostrophe and hyphen.\<close>

definition is_alnum :: "jschar \<Rightarrow> bool" where
  "is_alnum c \<longleftrightarrow>
     (0x41 \<le> c \<and> c \<le> 0x5A) \<or> (0x61 \<le> c \<and> c \<le> 0x7A) \<or> (0x30 \<le> c \<and> c \<le> 0x39)"

definition non_alnum :: "jschar \<Rightarrow> bool" where
  "non_alnum c \<longleftrightarrow> \<not> is_alnum c"

definition is_joiner :: "jschar \<Rightarrow> bool" where
  "is_joiner c \<longleftrightarrow> c = 0x27 \<or> c = 0x2D"

definition trim :: "jsstring \<Rightarrow> jsstring" where
  "trim s = rev (dropWhile is_space (rev (dropWhile is_space s)))"

section \<open>Regular expressions\<close>

text \<open>
  The patterns of the source use character classes, sequencing and the greedy quantifiers
  \<open>*\<close>, \<open>+\<close> and \<open>{n,}\<close>. \<open>rmatch re s\<close> is the backtracking matcher: it returns, in the
  order in which backtracking tries them, the remainders of \<open>s\<close> after each way of matching
  \<open>re\<close> at the start of \<open>s\<close>. A greedy star first tries one more iteration and then
  stopping; an iteration that consumes nothing is not repeated.
\<close>

datatype regex = Cls "jschar \<Rightarrow> bool" | Seq regex regex | Star regex

function rmatch :: "regex \<Rightarrow> jsstring \<Rightarrow> jsstring list" where
  "rmatch (Cls p) s = (case s of [] \<Rightarrow> [] | c # cs \<Rightarrow> if p c then [cs] else [])"
| "rmatch (Seq a b) s = concat (map (rmatch b) (rmatch a s))"
| "rmatch (Star a) s =
     concat (map (\<lambda>r. if length r < length s then rmatch (Star a) r else []) (rmatch a s)) @ [s]"
  by pat_completeness auto
termination
  by (relation "measures [\<lambda>(r, s). size r, \<lambda>(r, s). length s]") auto

definition Plus :: "regex \<Rightarrow> regex" where
  "Plus a = Seq a (Star a)"

fun AtLeast :: "nat \<Rightarrow> regex \<Rightarrow> regex" where
  "AtLeast 0 a = Star a"
| "AtLeast (Suc n) a = Seq a (AtLeast n a)"

definition Chr :: "jschar \<Rightarrow> regex" where
  "Chr c = Cls (\<lambda>x. x = c)"

text \<open>
  \<open>exec\<close> for a pattern of the shape \<^verbatim>\<open>^(g1)(g2)(g3)$\<close>: the first way, in backtracking
  order, of matching the three groups one after the other up to the end of the string; the
  result holds the three captured substrings, and \<open>None\<close> stands for null.
\<close>

definition exec3 :: "regex \<times> regex \<times> regex \<Rightarrow> jsstring \<Rightarrow> (jsstring \<times> jsstring \<times> jsstring) option" where
  "exec3 re s =
     (case re of (g1, g2, g3) \<Rightarrow>
        (case [(r1, r2). r1 \<leftarrow> rmatch g1 s, r2 \<leftarrow> rmatch g2 r1, r3 \<leftarrow> rmatch g3 r2, r3 = []] of
           [] \<Rightarrow> None
         | (r1, r2) # _ \<Rightarrow>
             Some (take (length s - length r1) s, take (length r1 - length r2) r1, r2)))"

text \<open>
  \<open>replace\<close> and \<open>match\<close> with a global pattern scan from left to right: at each position
  the first match in backtracking order is taken and the scan resumes after it (one
  character further when the match is empty); where there is no match the character is
  kept, respectively skipped. A global \<open>match\<close> without any match returns null.
\<close>

function replaceAll :: "regex \<Rightarrow> jsstring \<Rightarrow> jsstring \<Rightarrow> jsstring" where
  "replaceAll re rep s =
     (case rmatch re s of
        [] \<Rightarrow> (case s of [] \<Rightarrow> [] | c # cs \<Rightarrow> c # replaceAll re rep cs)
      | r # _ \<Rightarrow>
          if length r < length s then rep @ replaceAll re rep r
          else (case s of [] \<Rightarrow> rep | c # cs \<Rightarrow> rep @ c # replaceAll re rep cs))"
  by pat_completeness auto
termination
  by (relation "measure (\<lambda>(re, rep, s). length s)") auto

function matchAll :: "regex \<Rightarrow> jsstring \<Rightarrow> jsstring list" where
  "matchAll re s =
     (case rmatch re s of
        [] \<Rightarrow> (case s of [] \<Rightarrow> [] | c # cs \<Rightarrow> matchAll re cs)
      | r # _ \<Rightarrow>
          take (length s - length r) s #
            (if length r < length s then matchAll re r
             else (case s of [] \<Rightarrow> [] | c # cs \<Rightarrow> matchAll re cs)))"
  by pat_completeness auto
termination
  by (relation "measure (\<lambda>(re, s). length s)") auto

definition match_g :: "regex \<Rightarrow> jsstring \<Rightarrow> jsstring list option" where
  "match_g re s = (case matchAll re s of [] \<Rightarrow> None | ms \<Rightarrow> Some ms)"

declare rmatch.simps(3) [simp del]
declare replaceAll.simps [simp del]
declare matchAll.simps [simp del]

section \<open>The word pipeline\<close>

text \<open>The interface \<open>WordData\<close> and the object returned by the decomposer.\<close>

record WordData =
  word :: jsstring
  orpIndex :: int

record parts =
  leading :: jsstring
  core :: jsstring
  trailing :: jsstring

text \<open>
  \<^verbatim>\<open>/^([^A-Za-z0-9]*)([A-Za-z0-9]+(?:['-][A-Za-z0-9]+)*)([^A-Za-z0-9]*)$/\<close>, as its three
  capture groups.
\<close>

definition WORD_CORE_RE :: "regex \<times> regex \<times> regex" where
  "WORD_CORE_RE =
     (Star (Cls non_alnum),
      Seq (Plus (Cls is_alnum)) (Star (Seq (Cls is_joiner) (Plus (Cls is_alnum)))),
      Star (Cls non_alnum))"

definition calculateOrpCore :: "jsstring \<Rightarrow> int" where
  "calculateOrpCore core_str =
     (let trimmed = trim core_str in
      if trimmed = [] then 0
      else
        let len = length trimmed in
        if len \<le> 1 then 0
        else if len \<le> 5 then 1
        else if len \<le> 9 then 2
        else if len \<le> 13 then 3
        else 4)"

definition splitLeadingCoreTrailing :: "jsstring \<Rightarrow> parts" where
  "splitLeadingCoreTrailing token =
     (case exec3 WORD_CORE_RE token of
        None \<Rightarrow> \<lparr>leading = [], core = token, trailing = []\<rparr>
      | Some (g1, g2, g3) \<Rightarrow> \<lparr>leading = g1, core = g2, trailing = g3\<rparr>)"

text \<open>
  The normalizers. \<open>normalizePreserveParagraphs\<close> replaces \<^verbatim>\<open>/\r\n/g\<close> and then
  \<^verbatim>\<open>/\r/g\<close> by a newline, \<^verbatim>\<open>/[ \t]+/g\<close> by a space and \<^verbatim>\<open>/\n{3,}/g\<close> by two
  newlines, and trims; \<open>normalizeForWords\<close> replaces \<^verbatim>\<open>/\s+/g\<close> by a space and trims.
\<close>

definition CR :: jschar where "CR = 0x0D"
definition LF :: jschar where "LF = 0x0A"
definition SP :: jschar where "SP = 0x20"
definition TAB :: jschar where "TAB = 0x09"

definition is_blank :: "jschar \<Rightarrow> bool" where
  "is_blank c \<longleftrightarrow> c = SP \<or> c = TAB"

definition normalizePreserveParagraphs :: "jsstring \<Rightarrow> jsstring" where
  "normalizePreserveParagraphs text =
     (let normalized = replaceAll (Chr CR) [LF] (replaceAll (Seq (Chr CR) (Chr LF)) [LF] text);
          normalized = replaceAll (Plus (Cls is_blank)) [SP] normalized;
          normalized = replaceAll (AtLeast 3 (Chr LF)) [LF, LF] normalized
      in trim normalized)"

definition normalizeForWords :: "jsstring \<Rightarrow> jsstring" where
  "normalizeForWords text = trim (replaceAll (Plus (Cls is_space)) [SP] text)"

text \<open>\<^verbatim>\<open>text.match(/\S+/g) ?? []\<close>\<close>

definition tokensFromText :: "jsstring \<Rightarrow> jsstring list" where
  "tokensFromText text =
     (case match_g (Plus (Cls non_space)) text of None \<Rightarrow> [] | Some ms \<Rightarrow> ms)"

text \<open>
  \<open>processToken\<close> is the callback that \<open>processTokens\<close> maps over the tokens. Lengths
  and offsets are integers.
\<close>

definition processToken :: "jsstring \<Rightarrow> WordData" where
  "processToken raw =
     (let p = splitLeadingCoreTrailing raw;
          orpCore = calculateOrpCore (core p);
          display = leading p @ core p @ trailing p;
          orpDisplay = int (length (leading p)) + orpCore;
          orpDisplay =
            (if display = [] then 0
             else max 0 (min orpDisplay (int (length display) - 1)))
      in \<lparr>word = display, orpIndex = orpDisplay\<rparr>)"

definition processTokens :: "jsstring list \<Rightarrow> WordData list" where
  "processTokens tokens = map processToken tokens"

text \<open>
  The pipeline from raw text to word units, as \<open>getSampleDocument\<close> composes it.
\<close>

definition buildWordUnits :: "jsstring \<Rightarrow> WordData list" where
  "buildWordUnits text = processTokens (tokensFromText (normalizeForWords text))"

section \<open>Specification-level notions\<close>

text \<open>The language of a pattern, to reason about the matcher.\<close>

inductive_set star :: "jsstring set \<Rightarrow> jsstring set" for A :: "jsstring set" where
  star_nil: "[] \<in> star A"
| star_step: "u \<in> A \<Longrightarrow> v \<in> star A \<Longrightarrow> u @ v \<in> star A"

fun lang :: "regex \<Rightarrow> jsstring set" where
  "lang (Cls p) = {[c] | c. p c}"
| "lang (Seq a b) = {u @ v | u v. u \<in> lang a \<and> v \<in> lang b}"
| "lang (Star a) = star (lang a)"

text \<open>The band table of the specification, on the trimmed length.\<close>

definition orpCoreOffset :: "nat \<Rightarrow> int" where
  "orpCoreOffset L =
     (if L = 0 \<or> L = 1 then 0
      else if 2 \<le> L \<and> L \<le> 5 then 1
      else if 6 \<le> L \<and> L \<le> 9 then 2
      else if 10 \<le> L \<and> L \<le> 13 then 3
      else 4)"

text \<open>The assembler without the clamp and without the branch for an empty display.\<close>

definition processToken_unclamped :: "jsstring \<Rightarrow> WordData" where
  "processToken_unclamped raw =
     (let p = splitLeadingCoreTrailing raw;
          orpCore = calculateOrpCore (core p);
          display = leading p @ core p @ trailing p;
          orpDisplay = int (length (leading p)) + orpCore
      in \<lparr>word = display, orpIndex = orpDisplay\<rparr>)"

definition processTokens_unclamped :: "jsstring list \<Rightarrow> WordData list" where
  "processTokens_unclamped tokens = map processToken_unclamped tokens"

text \<open>The bounds invariant of a word unit.\<close>

definition in_bounds :: "WordData \<Rightarrow> bool" where
  "in_bounds w \<longleftrightarrow>
     (if word w = [] then orpIndex w = 0
      else 0 \<le> orpIndex w \<and> orpIndex w \<le> int (length (word w)) - 1)"

text \<open>
  The whitespace-delimited maximal non-whitespace substrings of a string, left to right:
  skip the whitespace, take the characters up to the next whitespace, repeat.
\<close>

function ws_tokens :: "jsstring \<Rightarrow> jsstring list" where
  "ws_tokens s =
     (case dropWhile is_space s of
        [] \<Rightarrow> []
      | c # cs \<Rightarrow> takeWhile non_space (c # cs) # ws_tokens (dropWhile non_space cs))"
  by pat_completeness auto
termination
proof (relation "measure length")
  show "wf (measure length)" by simp
next
  fix s :: jsstring and c cs
  assume a: "dropWhile is_space s = c # cs"
  have "length (dropWhile non_space cs) \<le> length cs" by (rule length_dropWhile_le)
  also have "\<dots> < length (dropWhile is_space s)" using a by simp
  also have "\<dots> \<le> length s" by (rule length_dropWhile_le)
  finally show "(dropWhile non_space cs, s) \<in> measure length" by simp
qed

declare ws_tokens.simps [simp del]

text \<open>
  The shape of a core: a non-empty run of alphanumeric characters, and then either nothing,
  or an apostrophe or hyphen followed again by a core.
\<close>

function core_form :: "jsstring \<Rightarrow> bool" where
  "core_form s =
     (takeWhile is_alnum s \<noteq> [] \<and>
      (case dropWhile is_alnum s of [] \<Rightarrow> True | j # rest \<Rightarrow> is_joiner j \<and> core_form rest))"
  by pat_completeness auto
termination
proof (relation "measure length")
  show "wf (measure length)" by simp
next
  fix s :: jsstring and j rest
  assume "dropWhile is_alnum s = j # rest"
  then have "length rest < length (dropWhile is_alnum s)" by simp
  also have "\<dots> \<le> length s" by (rule length_dropWhile_le)
  finally show "(rest, s) \<in> measure length" by simp
qed

declare core_form.simps [simp del]

text \<open>
  The maximal runs of non-alphanumeric characters at the start and at the end of a token,
  and what remains of the token when both are removed.
\<close>

definition lead_run :: "jsstring \<Rightarrow> jsstring" where
  "lead_run s = takeWhile non_alnum s"

definition trail_run :: "jsstring \<Rightarrow> jsstring" where
  "trail_run s = rev (takeWhile non_alnum (rev s))"

definition middle :: "jsstring \<Rightarrow> jsstring" where
  "middle s = rev (dropWhile non_alnum (rev (dropWhile non_alnum s)))"

text \<open>The second capture group of \<open>WORD_CORE_RE\<close>.\<close>

definition CORE_RE :: regex where
  "CORE_RE = Seq (Plus (Cls is_alnum)) (Star (Seq (Cls is_joiner) (Plus (Cls is_alnum))))"

text \<open>
  The steps of the normalizers as the specification words them. Line endings: CRLF and a
  lone CR each become one newline.
\<close>

fun unify_line_endings :: "jsstring \<Rightarrow> jsstring" where
  "unify_line_endings [] = []"
| "unify_line_endings [a] = (if a = CR then [LF] else [a])"
| "unify_line_endings (a # b # r) =
     (if a = CR \<and> b = LF then LF # unify_line_endings r
      else if a = CR then LF # unify_line_endings (b # r)
      else a # unify_line_endings (b # r))"

text \<open>
  Collapsing runs: every maximal run of characters satisfying \<open>P\<close> whose length is at
  least \<open>k\<close> is replaced by \<open>rep\<close>; shorter runs and all other characters are kept.
\<close>

function collapse_runs :: "(jschar \<Rightarrow> bool) \<Rightarrow> nat \<Rightarrow> jsstring \<Rightarrow> jsstring \<Rightarrow> jsstring" where
  "collapse_runs P k rep s =
     (case s of
        [] \<Rightarrow> []
      | c # cs \<Rightarrow>
          if P c
          then (if k \<le> length (takeWhile P s) then rep else takeWhile P s)
                 @ collapse_runs P k rep (dropWhile P cs)
          else c # collapse_runs P k rep cs)"
  by pat_completeness auto
termination
proof (relation "measure (\<lambda>(P, k, rep, s). length s)")
  show "wf (measure (\<lambda>(P, k, rep, s). length s))" by simp
next
  fix P :: "jschar \<Rightarrow> bool" and k :: nat and rep s :: jsstring and c cs
  assume "s = c # cs"
  then show "((P, k, rep, dropWhile P cs), (P, k, rep, s)) \<in> measure (\<lambda>(P, k, rep, s). length s)"
    using length_dropWhile_le[of P cs] by simp
next
  fix P :: "jschar \<Rightarrow> bool" and k :: nat and rep s :: jsstring and c cs
  assume "s = c # cs"
  then show "((P, k, rep, cs), (P, k, rep, s)) \<in> measure (\<lambda>(P, k, rep, s). length s)"
    by simp
qed

declare collapse_runs.simps [simp del]

definition is_newline :: "jschar \<Rightarrow> bool" where
  "is_newline c \<longleftrightarrow> c = LF"

text \<open>
  A single-line, single-spaced string: its only whitespace characters are single spaces,
  each followed by a non-whitespace character, and it neither starts nor ends with
  whitespace.
\<close>

fun lone_spaces :: "jsstring \<Rightarrow> bool" where
  "lone_spaces [] = True"
| "lone_spaces [a] = (is_space a \<longrightarrow> a = SP)"
| "lone_spaces (a # b # r) = ((is_space a \<longrightarrow> a = SP \<and> \<not> is_space b) \<and> lone_spaces (b # r))"

definition single_spaced :: "jsstring \<Rightarrow> bool" where
  "single_spaced p \<longleftrightarrow>
     p \<noteq> [] \<and> \<not> is_space (hd p) \<and> \<not> is_space (last p) \<and> lone_spaces p"

text \<open>
  Line-ending characters; the full-text normalization before its final trim; whether a
  string holds two consecutive newlines; and the two halves of \<open>trim\<close>.
\<close>

definition is_eol :: "jschar \<Rightarrow> bool" where
  "is_eol c \<longleftrightarrow> c = CR \<or> c = LF"

definition full_text_steps :: "jsstring \<Rightarrow> jsstring" where
  "full_text_steps s =
     collapse_runs is_newline 3 [LF, LF] (collapse_runs is_blank 1 [SP] (unify_line_endings s))"

fun has_double_newline :: "jsstring \<Rightarrow> bool" where
  "has_double_newline [] = False"
| "has_double_newline [a] = False"
| "has_double_newline (a # b # r) = ((a = LF \<and> b = LF) \<or> has_double_newline (b # r))"

definition trim_start :: "jsstring \<Rightarrow> jsstring" where
  "trim_start s = dropWhile is_space s"

definition trim_end :: "jsstring \<Rightarrow> jsstring" where
  "trim_end s = rev (dropWhile is_space (rev s))"

section \<open>Properties\<close>

lemma rmatch_sound: "r \<in> set (rmatch re s) \<Longrightarrow> \<exists>p. p \<in> lang re \<and> s = p @ r"
proof (induction re s arbitrary: r rule: rmatch.induct)
  case (1 p s)
  then show ?case by (cases s) (auto split: if_splits)
next
  case (2 a b s)
  from "2.prems" obtain r1 where r1: "r1 \<in> set (rmatch a s)" and r: "r \<in> set (rmatch b r1)"
    by auto
  from "2.IH"(1)[OF r1] obtain p1 where p1: "p1 \<in> lang a" "s = p1 @ r1" by blast
  from "2.IH"(2)[OF r1 r] obtain p2 where p2: "p2 \<in> lang b" "r1 = p2 @ r" by blast
  have "p1 @ p2 \<in> lang (Seq a b)" using p1 p2 by auto
  moreover have "s = (p1 @ p2) @ r" using p1 p2 by simp
  ultimately show ?case by blast
next
  case (3 a s)
  from "3.prems" consider "r = s"
    | r1 where "r1 \<in> set (rmatch a s)" "length r1 < length s" "r \<in> set (rmatch (Star a) r1)"
    by (subst (asm) rmatch.simps) (auto split: if_splits)
  then show ?case
  proof cases
    case 1
    then show ?thesis by (auto intro: star_nil)
  next
    case (2 r1)
    from "3.IH"(1)[OF 2(1)] obtain p1 where p1: "p1 \<in> lang a" "s = p1 @ r1" by blast
    from "3.IH"(2)[OF 2(1) 2(2) 2(3)] obtain p2 where p2: "p2 \<in> star (lang a)" "r1 = p2 @ r"
      by auto
    have "p1 @ p2 \<in> lang (Star a)" using p1 p2 by (auto intro: star_step)
    moreover have "s = (p1 @ p2) @ r" using p1 p2 by simp
    ultimately show ?thesis by blast
  qed
qed

lemma rmatch_Star_self: "s \<in> set (rmatch (Star a) s)"
  by (subst rmatch.simps) simp

lemma rmatch_Star_step:
  "r1 \<in> set (rmatch a s) \<Longrightarrow> length r1 < length s \<Longrightarrow> r \<in> set (rmatch (Star a) r1)
   \<Longrightarrow> r \<in> set (rmatch (Star a) s)"
  by (subst rmatch.simps) auto

lemma rmatch_complete: "p \<in> lang re \<Longrightarrow> r \<in> set (rmatch re (p @ r))"
proof (induction re arbitrary: p r)
  case (Cls x)
  then show ?case by auto
next
  case (Seq a b)
  from Seq.prems obtain u v where uv: "p = u @ v" "u \<in> lang a" "v \<in> lang b" by auto
  have "v @ r \<in> set (rmatch a (u @ v @ r))" using Seq.IH(1)[OF uv(2)] .
  moreover have "r \<in> set (rmatch b (v @ r))" using Seq.IH(2)[OF uv(3)] .
  ultimately show ?case using uv(1) by auto
next
  case (Star a)
  from Star.prems have "p \<in> star (lang a)" by simp
  then show ?case
  proof (induction rule: star.induct)
    case star_nil
    show ?case by (simp add: rmatch_Star_self)
  next
    case (star_step u v)
    show ?case
    proof (cases "u = []")
      case True
      then show ?thesis using star_step.IH by simp
    next
      case False
      have "v @ r \<in> set (rmatch a (u @ v @ r))" using Star.IH[OF star_step.hyps(1)] .
      moreover have "length (v @ r) < length (u @ v @ r)" using False by simp
      ultimately show ?thesis using star_step.IH rmatch_Star_step by fastforce
    qed
  qed
qed

lemma exec3_SomeD:
  assumes "exec3 (g1, g2, g3) s = Some (l, c, t)"
  shows "l \<in> lang g1 \<and> c \<in> lang g2 \<and> t \<in> lang g3 \<and> s = l @ c @ t"
proof -
  let ?cands = "[(r1, r2). r1 \<leftarrow> rmatch g1 s, r2 \<leftarrow> rmatch g2 r1, r3 \<leftarrow> rmatch g3 r2, r3 = []]"
  from assms obtain r1 r2 rest where hd: "?cands = (r1, r2) # rest"
    and l: "l = take (length s - length r1) s"
    and c: "c = take (length r1 - length r2) r1" and t: "t = r2"
    by (auto simp: exec3_def split: list.splits)
  have "(r1, r2) \<in> set ?cands" using hd by simp
  then have m1: "r1 \<in> set (rmatch g1 s)" and m2: "r2 \<in> set (rmatch g2 r1)"
    and m3: "[] \<in> set (rmatch g3 r2)"
    by auto
  from rmatch_sound[OF m1] obtain p1 where p1: "p1 \<in> lang g1" "s = p1 @ r1" by blast
  from rmatch_sound[OF m2] obtain p2 where p2: "p2 \<in> lang g2" "r1 = p2 @ r2" by blast
  from rmatch_sound[OF m3] have p3: "r2 \<in> lang g3" by auto
  have "l = p1" using l p1(2) by simp
  moreover have "c = p2" using c p2(2) by simp
  ultimately show ?thesis using p1 p2 p3 t by simp
qed

lemma exec3_complete:
  assumes "l \<in> lang g1" "c \<in> lang g2" "t \<in> lang g3"
  shows "exec3 (g1, g2, g3) (l @ c @ t) \<noteq> None"
proof -
  let ?s = "l @ c @ t"
  let ?cands = "[(r1, r2). r1 \<leftarrow> rmatch g1 ?s, r2 \<leftarrow> rmatch g2 r1, r3 \<leftarrow> rmatch g3 r2, r3 = []]"
  have m1: "c @ t \<in> set (rmatch g1 ?s)" using rmatch_complete[OF assms(1)] .
  have m2: "t \<in> set (rmatch g2 (c @ t))" using rmatch_complete[OF assms(2)] .
  have m3: "[] \<in> set (rmatch g3 t)" using rmatch_complete[OF assms(3), of "[]"] by simp
  have "(c @ t, t) \<in> set ?cands" using m1 m2 m3 by auto
  then have "?cands \<noteq> []" by auto
  then show ?thesis by (auto simp: exec3_def split: list.splits)
qed

lemma split_lossless:
  "leading (splitLeadingCoreTrailing token) @ core (splitLeadingCoreTrailing token)
     @ trailing (splitLeadingCoreTrailing token) = token"
proof (cases "exec3 WORD_CORE_RE token")
  case None
  then show ?thesis by (simp add: splitLeadingCoreTrailing_def)
next
  case (Some x)
  obtain l c t where x: "x = (l, c, t)" by (cases x) auto
  obtain g1 g2 g3 where g: "WORD_CORE_RE = (g1, g2, g3)" by (cases WORD_CORE_RE) auto
  from Some x g have "token = l @ c @ t" using exec3_SomeD by metis
  then show ?thesis using Some x by (simp add: splitLeadingCoreTrailing_def)
qed

lemma length_trim_le: "length (trim s) \<le> length s"
proof -
  have "length (trim s) \<le> length (dropWhile is_space s)"
    unfolding trim_def using length_dropWhile_le[of is_space "rev (dropWhile is_space s)"] by simp
  also have "\<dots> \<le> length s" by (rule length_dropWhile_le)
  finally show ?thesis .
qed

lemma orp_bands_eq:
  "(if t = [] then (0::int)
    else if length t \<le> 1 then 0 else if length t \<le> 5 then 1
    else if length t \<le> 9 then 2 else if length t \<le> 13 then 3 else 4) = orpCoreOffset (length t)"
  by (cases t) (auto simp: orpCoreOffset_def Suc_le_eq)

lemma calculateOrpCore_table: "calculateOrpCore c = orpCoreOffset (length (trim c))"
  unfolding calculateOrpCore_def Let_def by (rule orp_bands_eq)

lemma orpCoreOffset_mono: "a \<le> b \<Longrightarrow> orpCoreOffset a \<le> orpCoreOffset b"
  by (simp add: orpCoreOffset_def)

lemma orpCoreOffset_range: "0 \<le> orpCoreOffset L \<and> orpCoreOffset L \<le> 4"
  by (simp add: orpCoreOffset_def)

lemma orpCoreOffset_lt: "0 < L \<Longrightarrow> orpCoreOffset L < int L"
  by (simp add: orpCoreOffset_def)

lemma calculateOrpCore_nonneg: "0 \<le> calculateOrpCore c"
  by (simp add: calculateOrpCore_table orpCoreOffset_range)

lemma calculateOrpCore_lt: "c \<noteq> [] \<Longrightarrow> calculateOrpCore c < int (length c)"
proof (cases "trim c = []")
  case True
  assume "c \<noteq> []"
  then show ?thesis using True by (simp add: calculateOrpCore_def)
next
  case False
  then have "orpCoreOffset (length (trim c)) < int (length (trim c))"
    by (intro orpCoreOffset_lt) simp
  then show ?thesis using length_trim_le[of c] by (simp add: calculateOrpCore_table)
qed

lemma processToken_word: "word (processToken raw) = raw"
  by (simp add: processToken_def Let_def split_lossless)

lemma split_core_nonempty: "token \<noteq> [] \<Longrightarrow> core (splitLeadingCoreTrailing token) \<noteq> []"
proof (cases "exec3 WORD_CORE_RE token")
  case None
  assume "token \<noteq> []"
  then show ?thesis using None by (simp add: splitLeadingCoreTrailing_def)
next
  case (Some x)
  obtain l c t where x: "x = (l, c, t)" by (cases x) auto
  from Some x have "c \<in> lang (Seq (Plus (Cls is_alnum)) (Star (Seq (Cls is_joiner) (Plus (Cls is_alnum)))))"
    using exec3_SomeD unfolding WORD_CORE_RE_def by blast
  then have "c \<noteq> []" by (auto simp: Plus_def)
  then show ?thesis using Some x by (simp add: splitLeadingCoreTrailing_def)
qed

lemma raw_offset_bounds:
  assumes "token \<noteq> []"
  defines "p \<equiv> splitLeadingCoreTrailing token"
  shows "0 \<le> int (length (leading p)) + calculateOrpCore (core p)"
    and "int (length (leading p)) + calculateOrpCore (core p)
           \<le> int (length (leading p @ core p @ trailing p)) - 1"
proof -
  show "0 \<le> int (length (leading p)) + calculateOrpCore (core p)"
    using calculateOrpCore_nonneg[of "core p"] by simp
  have "core p \<noteq> []" unfolding p_def using assms(1) by (rule split_core_nonempty)
  then have "calculateOrpCore (core p) < int (length (core p))" by (rule calculateOrpCore_lt)
  then show "int (length (leading p)) + calculateOrpCore (core p)
           \<le> int (length (leading p @ core p @ trailing p)) - 1"
    by simp
qed

lemma processToken_unclamped_eq: "processToken raw = processToken_unclamped raw"
proof (cases "raw = []")
  case True
  have "exec3 WORD_CORE_RE [] = None"
    by (simp add: exec3_def WORD_CORE_RE_def Plus_def rmatch.simps(3))
  then have "splitLeadingCoreTrailing [] = \<lparr>leading = [], core = [], trailing = []\<rparr>"
    by (simp add: splitLeadingCoreTrailing_def)
  then show ?thesis using True
    by (simp add: processToken_def processToken_unclamped_def calculateOrpCore_def trim_def)
next
  case False
  let ?p = "splitLeadingCoreTrailing raw"
  have d: "leading ?p @ core ?p @ trailing ?p \<noteq> []" using False by (simp add: split_lossless)
  show ?thesis
    using raw_offset_bounds[OF False] d
    by (simp add: processToken_def processToken_unclamped_def Let_def del: append_is_Nil_conv)
qed

lemma clamp_bounds:
  assumes "d \<noteq> []"
  shows "0 \<le> max 0 (min x (int (length d) - 1))"
    and "max 0 (min x (int (length d) - 1)) \<le> int (length d) - 1"
proof -
  from assms have "0 < int (length d)" by simp
  then show "max 0 (min x (int (length d) - 1)) \<le> int (length d) - 1" by linarith
  show "0 \<le> max 0 (min x (int (length d) - 1))" by simp
qed

lemma processToken_in_bounds: "in_bounds (processToken raw)"
proof -
  let ?p = "splitLeadingCoreTrailing raw"
  let ?d = "leading ?p @ core ?p @ trailing ?p"
  show ?thesis
  proof (cases "?d = []")
    case True
    then show ?thesis by (simp add: in_bounds_def processToken_def Let_def)
  next
    case False
    have w: "word (processToken raw) = ?d" by (simp add: processToken_def Let_def)
    have o: "orpIndex (processToken raw)
               = max 0 (min (int (length (leading ?p)) + calculateOrpCore (core ?p)) (int (length ?d) - 1))"
      using False by (simp add: processToken_def Let_def del: append_is_Nil_conv)
    show ?thesis
      unfolding in_bounds_def w o using False clamp_bounds[OF False] by simp
  qed
qed

subsection \<open>Claims about the ORP table, the decomposer and the assembler\<close>

text \<open>
  Claim C1. Every WordUnit produced by the pipeline satisfies the bounds invariant: an empty
  \<open>word\<close> has \<open>orpIndex = 0\<close>, and a non-empty one has
  \<open>0 \<le> orpIndex \<le> length word - 1\<close>. This holds for \<open>buildWordUnits\<close> on every input
  text, and more generally for \<open>processTokens\<close> on every list of tokens.
\<close>

theorem orpIndex_in_bounds:
  "(\<forall>w \<in> set (buildWordUnits text). in_bounds w) \<and>
   (\<forall>w \<in> set (processTokens tokens). in_bounds w)"
  by (auto simp: buildWordUnits_def processTokens_def processToken_in_bounds)

theorem orpIndex_in_bounds_witness:
  "\<lparr>word = js ''(hello)'', orpIndex = 2\<rparr> \<in> set (buildWordUnits (js ''say  (hello)''))
   \<and> in_bounds \<lparr>word = js ''(hello)'', orpIndex = 2\<rparr>
   \<and> \<lparr>word = [], orpIndex = 0\<rparr> \<in> set (processTokens [[]])
   \<and> in_bounds \<lparr>word = [], orpIndex = 0\<rparr>"
proof -
  have m1: "\<lparr>word = js ''(hello)'', orpIndex = 2\<rparr> \<in> set (buildWordUnits (js ''say  (hello)''))"
    by code_simp
  have m2: "\<lparr>word = [], orpIndex = 0\<rparr> \<in> set (processTokens [[]])"
    by code_simp
  from orpIndex_in_bounds[of "js ''say  (hello)''" "[[]]"]
  have b: "(\<forall>w \<in> set (buildWordUnits (js ''say  (hello)'')). in_bounds w)"
    "(\<forall>w \<in> set (processTokens [[]]). in_bounds w)"
    by blast+
  show ?thesis using m1 m2 b(1)[rule_format, OF m1] b(2)[rule_format, OF m2] by blast
qed

text \<open>
  Claim C2. \<open>calculateOrpCore\<close> depends only on the length \<open>L\<close> of the trimmed core and
  follows the band table: 0 for \<open>L\<close> in {0, 1}, 1 for 2..5, 2 for 6..9, 3 for 10..13 and 4
  from 14 on (so in particular at the boundary lengths 1, 2, 5, 6, 9, 10, 13, 14); it is
  monotonically non-decreasing in \<open>L\<close> and never exceeds 4.
\<close>

theorem calculateOrpCore_bands:
  "(length (trim c) \<in> {0, 1} \<longrightarrow> calculateOrpCore c = 0) \<and>
   (length (trim c) \<in> {2..5} \<longrightarrow> calculateOrpCore c = 1) \<and>
   (length (trim c) \<in> {6..9} \<longrightarrow> calculateOrpCore c = 2) \<and>
   (length (trim c) \<in> {10..13} \<longrightarrow> calculateOrpCore c = 3) \<and>
   (14 \<le> length (trim c) \<longrightarrow> calculateOrpCore c = 4) \<and>
   (length (trim c) = length (trim d) \<longrightarrow> calculateOrpCore c = calculateOrpCore d) \<and>
   (length (trim c) \<le> length (trim d) \<longrightarrow> calculateOrpCore c \<le> calculateOrpCore d) \<and>
   0 \<le> calculateOrpCore c \<and> calculateOrpCore c \<le> 4"
  unfolding calculateOrpCore_table
  using orpCoreOffset_mono[of "length (trim c)" "length (trim d)"] orpCoreOffset_range[of "length (trim c)"]
  by (auto simp: orpCoreOffset_def)

theorem calculateOrpCore_bands_witness:
  "calculateOrpCore (js ''a'') = 0 \<and>
   calculateOrpCore (js ''ab'') = 1 \<and>
   calculateOrpCore (js ''abcde'') = 1 \<and>
   calculateOrpCore (js ''abcdef'') = 2 \<and>
   calculateOrpCore (js ''abcdefghi'') = 2 \<and>
   calculateOrpCore (js ''abcdefghij'') = 3 \<and>
   calculateOrpCore (js ''abcdefghijklm'') = 3 \<and>
   calculateOrpCore (js ''abcdefghijklmn'') = 4 \<and>
   calculateOrpCore (js ''ab'') \<le> calculateOrpCore (js ''abcdef'')"
proof -
  have l: "length (trim (js ''a'')) = 1" "length (trim (js ''ab'')) = 2"
    "length (trim (js ''abcde'')) = 5" "length (trim (js ''abcdef'')) = 6"
    "length (trim (js ''abcdefghi'')) = 9" "length (trim (js ''abcdefghij'')) = 10"
    "length (trim (js ''abcdefghijklm'')) = 13" "length (trim (js ''abcdefghijklmn'')) = 14"
    by code_simp+
  show ?thesis
    using calculateOrpCore_bands[of "js ''a''" "js ''a''"]
      calculateOrpCore_bands[of "js ''ab''" "js ''abcdef''"]
      calculateOrpCore_bands[of "js ''abcde''" "js ''a''"]
      calculateOrpCore_bands[of "js ''abcdef''" "js ''a''"]
      calculateOrpCore_bands[of "js ''abcdefghi''" "js ''a''"]
      calculateOrpCore_bands[of "js ''abcdefghij''" "js ''a''"]
      calculateOrpCore_bands[of "js ''abcdefghijklm''" "js ''a''"]
      calculateOrpCore_bands[of "js ''abcdefghijklmn''" "js ''a''"]
    unfolding l by simp
qed

text \<open>
  Claim C3. Decomposition is lossless and total: for every token, leading, core and trailing
  concatenate back to the token. The decomposer is a total function; when the pattern does
  not match (\<open>exec\<close> returns null) it returns the whole token as core.
\<close>

theorem decomposition_lossless:
  "leading (splitLeadingCoreTrailing token) @ core (splitLeadingCoreTrailing token)
     @ trailing (splitLeadingCoreTrailing token) = token
   \<and> (exec3 WORD_CORE_RE token = None \<longrightarrow>
        splitLeadingCoreTrailing token = \<lparr>leading = [], core = token, trailing = []\<rparr>)"
  by (simp add: split_lossless) (simp add: splitLeadingCoreTrailing_def)

theorem decomposition_lossless_witness:
  "exec3 WORD_CORE_RE (js ''---'') = None \<and>
   splitLeadingCoreTrailing (js ''---'') = \<lparr>leading = [], core = js ''---'', trailing = []\<rparr> \<and>
   splitLeadingCoreTrailing (js ''(hello)'') = \<lparr>leading = js ''('', core = js ''hello'', trailing = js '')''\<rparr> \<and>
   js ''('' @ js ''hello'' @ js '')'' = js ''(hello)''"
proof -
  have n: "exec3 WORD_CORE_RE (js ''---'') = None" by code_simp
  have h: "splitLeadingCoreTrailing (js ''(hello)'') = \<lparr>leading = js ''('', core = js ''hello'', trailing = js '')''\<rparr>"
    by code_simp
  from decomposition_lossless[of "js ''---''"] n
  have f: "splitLeadingCoreTrailing (js ''---'') = \<lparr>leading = [], core = js ''---'', trailing = []\<rparr>"
    by blast
  from decomposition_lossless[of "js ''(hello)''"]
  have "js ''('' @ js ''hello'' @ js '')'' = js ''(hello)''" unfolding h by simp
  then show ?thesis using n h f by blast
qed

text \<open>
  Claim C9. The clamping step of the assembler is the identity on every pipeline output: for
  a non-empty core the core offset is strictly below the core's length, so for a non-empty
  token the raw offset \<open>length leading + calculateOrpCore core\<close> already lies in
  \<open>[0, length display - 1]\<close>, and \<open>processTokens\<close> equals its variant without the clamp and
  without the empty-display branch, on every token list and so on every tokenizer output.
\<close>

theorem clamp_is_identity:
  "(c \<noteq> [] \<longrightarrow> calculateOrpCore c < int (length c)) \<and>
   (token \<noteq> [] \<longrightarrow>
      0 \<le> int (length (leading (splitLeadingCoreTrailing token)))
            + calculateOrpCore (core (splitLeadingCoreTrailing token)) \<and>
      int (length (leading (splitLeadingCoreTrailing token)))
            + calculateOrpCore (core (splitLeadingCoreTrailing token))
        \<le> int (length (leading (splitLeadingCoreTrailing token)
                         @ core (splitLeadingCoreTrailing token)
                         @ trailing (splitLeadingCoreTrailing token))) - 1) \<and>
   processTokens tokens = processTokens_unclamped tokens \<and>
   buildWordUnits text = processTokens_unclamped (tokensFromText (normalizeForWords text))"
  using calculateOrpCore_lt[of c] raw_offset_bounds[of token]
  by (simp add: processTokens_def processTokens_unclamped_def buildWordUnits_def
      processToken_unclamped_eq)

theorem clamp_is_identity_witness:
  "js ''hello'' \<noteq> [] \<and> calculateOrpCore (js ''hello'') < int (length (js ''hello'')) \<and>
   js ''((a'' \<noteq> [] \<and>
   splitLeadingCoreTrailing (js ''((a'') = \<lparr>leading = js ''(('', core = js ''a'', trailing = []\<rparr> \<and>
   int (length (js ''(('')) + calculateOrpCore (js ''a'') \<le> int (length (js ''(('' @ js ''a'' @ []))  - 1 \<and>
   processTokens_unclamped [js ''((a''] = [\<lparr>word = js ''((a'', orpIndex = 2\<rparr>]"
proof -
  have ne: "js ''hello'' \<noteq> []" "js ''((a'' \<noteq> []" by (simp_all add: js_def)
  have s: "splitLeadingCoreTrailing (js ''((a'') = \<lparr>leading = js ''(('', core = js ''a'', trailing = []\<rparr>"
    by code_simp
  have p: "processTokens [js ''((a''] = [\<lparr>word = js ''((a'', orpIndex = 2\<rparr>]"
    by code_simp
  from clamp_is_identity[of "js ''hello''" "js ''((a''" "[js ''((a'']" "[]"] ne
  have "calculateOrpCore (js ''hello'') < int (length (js ''hello''))"
    and "int (length (js ''(('')) + calculateOrpCore (js ''a'') \<le> int (length (js ''(('' @ js ''a'' @ []))  - 1"
    and "processTokens_unclamped [js ''((a''] = [\<lparr>word = js ''((a'', orpIndex = 2\<rparr>]"
    unfolding s p by simp_all
  then show ?thesis using ne s by blast
qed

subsection \<open>Empty and whitespace-only input\<close>

lemma rmatch_suffix: "r \<in> set (rmatch re s) \<Longrightarrow> \<exists>p. s = p @ r"
  using rmatch_sound by blast

lemma rmatch_hd_suffix: "rmatch re s = r # rs \<Longrightarrow> \<exists>p. s = p @ r"
  using rmatch_suffix[of r re s] by simp

lemma replaceAll_Nil: "rmatch re [] = [] \<Longrightarrow> replaceAll re rep [] = []"
  by (subst replaceAll.simps) simp

lemma set_replaceAll: "set (replaceAll re rep s) \<subseteq> set s \<union> set rep"
proof (induction re rep s rule: replaceAll.induct)
  case (1 re rep s)
  show ?case
  proof (cases "rmatch re s")
    case Nil
    show ?thesis
    proof (cases s)
      case Nil
      with \<open>rmatch re s = []\<close> show ?thesis by (subst replaceAll.simps) simp
    next
      case (Cons c cs)
      with \<open>rmatch re s = []\<close> "1.IH"(1)[OF \<open>rmatch re s = []\<close> Cons] show ?thesis
        by (subst replaceAll.simps) auto
    qed
  next
    case (Cons r rs)
    from rmatch_hd_suffix[OF Cons] obtain p where p: "s = p @ r" by blast
    show ?thesis
    proof (cases "length r < length s")
      case True
      with Cons "1.IH"(2)[OF Cons True] p show ?thesis
        by (subst replaceAll.simps) auto
    next
      case False
      show ?thesis
      proof (cases s)
        case Nil
        with Cons False show ?thesis by (subst replaceAll.simps) simp
      next
        case (Cons c cs)
        with \<open>rmatch re s = r # rs\<close> False "1.IH"(3)[OF \<open>rmatch re s = r # rs\<close> False Cons]
        show ?thesis by (subst replaceAll.simps) auto
      qed
    qed
  qed
qed

lemma trim_all_space: "\<forall>c \<in> set s. is_space c \<Longrightarrow> trim s = []"
  by (auto simp: trim_def dropWhile_eq_Nil_conv dest: set_dropWhileD)

lemma is_space_SP: "is_space SP"
  by (simp add: is_space_def SP_def)

lemma normalizeForWords_all_space:
  assumes "\<forall>c \<in> set text. is_space c"
  shows "normalizeForWords text = []"
proof -
  have "\<forall>c \<in> set (replaceAll (Plus (Cls is_space)) [SP] text). is_space c"
    using set_replaceAll[of "Plus (Cls is_space)" "[SP]" "text"] assms is_space_SP by auto
  then show ?thesis unfolding normalizeForWords_def by (rule trim_all_space)
qed

lemma tokensFromText_Nil: "tokensFromText [] = []"
  by (simp add: tokensFromText_def match_g_def matchAll.simps Plus_def rmatch.simps(3))

lemma buildWordUnits_all_space:
  "\<forall>c \<in> set text. is_space c \<Longrightarrow> buildWordUnits text = []"
  by (simp add: buildWordUnits_def normalizeForWords_all_space tokensFromText_Nil processTokens_def)

text \<open>
  Claim C7. The pipeline is total on empty and whitespace-only input: the tokenizer returns
  the empty list (not null) on the empty string, and \<open>buildWordUnits\<close> returns the empty
  list on the empty string, on the string of three spaces, a newline, a tab and two spaces,
  and on every string that consists of whitespace only.
\<close>

theorem empty_input_empty_output:
  "tokensFromText [] = [] \<and>
   buildWordUnits [] = [] \<and>
   buildWordUnits (js ''   '' @ [LF, TAB] @ js ''  '') = [] \<and>
   ((\<forall>c \<in> set text. is_space c) \<longrightarrow> buildWordUnits text = [])"
proof -
  have "\<forall>c \<in> set (js ''   '' @ [LF, TAB] @ js ''  ''). is_space c"
    by (simp add: js_def is_space_def LF_def TAB_def)
  then have "buildWordUnits (js ''   '' @ [LF, TAB] @ js ''  '') = []"
    by (rule buildWordUnits_all_space)
  then show ?thesis
    using buildWordUnits_all_space[of "text"] buildWordUnits_all_space[of "[]"] tokensFromText_Nil
    by simp
qed

theorem empty_input_empty_output_witness:
  "list_all is_space [CR, LF, SP, 0xA0, TAB] \<and> buildWordUnits [CR, LF, SP, 0xA0, TAB] = []"
proof -
  have a: "list_all is_space [CR, LF, SP, 0xA0, TAB]"
    by (simp add: is_space_def CR_def LF_def SP_def TAB_def)
  then have "\<forall>c \<in> set [CR, LF, SP, 0xA0, TAB]. is_space c"
    by (simp only: list_all_iff)
  with empty_input_empty_output[of "[CR, LF, SP, 0xA0, TAB]"]
  have "buildWordUnits [CR, LF, SP, 0xA0, TAB] = []" by blast
  then show ?thesis using a by blast
qed

subsection \<open>The tokenizer\<close>

lemma rmatch_Star_Cls_Nil: "rmatch (Star (Cls P)) [] = [[]]"
  by (simp add: rmatch.simps(3))

lemma rmatch_Star_Cls_Cons:
  "rmatch (Star (Cls P)) (c # cs) =
     (if P c then rmatch (Star (Cls P)) cs @ [c # cs] else [c # cs])"
  by (subst rmatch.simps(3)) simp

lemma rmatch_Star_Cls_hd: "\<exists>rs. rmatch (Star (Cls P)) s = dropWhile P s # rs"
  by (induction s) (auto simp: rmatch_Star_Cls_Nil rmatch_Star_Cls_Cons)

lemma rmatch_AtLeast_Nil: "0 < k \<Longrightarrow> rmatch (AtLeast k (Cls P)) [] = []"
  by (cases k) simp_all

lemma rmatch_AtLeast_Cons:
  "rmatch (AtLeast (Suc k) (Cls P)) (c # cs) = (if P c then rmatch (AtLeast k (Cls P)) cs else [])"
  by simp

lemma rmatch_AtLeast_short:
  "length (takeWhile P s) < k \<Longrightarrow> rmatch (AtLeast k (Cls P)) s = []"
proof (induction k arbitrary: s)
  case 0
  then show ?case by simp
next
  case (Suc k)
  show ?case
  proof (cases s)
    case Nil
    then show ?thesis by simp
  next
    case (Cons c cs)
    with Suc show ?thesis by (auto simp del: AtLeast.simps simp: rmatch_AtLeast_Cons)
  qed
qed

lemma rmatch_AtLeast_long:
  "k \<le> length (takeWhile P s) \<Longrightarrow> \<exists>rs. rmatch (AtLeast k (Cls P)) s = dropWhile P s # rs"
proof (induction k arbitrary: s)
  case 0
  then show ?case using rmatch_Star_Cls_hd by simp
next
  case (Suc k)
  show ?case
  proof (cases s)
    case Nil
    with Suc.prems show ?thesis by simp
  next
    case (Cons c cs)
    with Suc.prems have pc: "P c" and "k \<le> length (takeWhile P cs)"
      by (auto split: if_splits)
    from Suc.IH[OF this(2)] obtain rs where "rmatch (AtLeast k (Cls P)) cs = dropWhile P cs # rs"
      by blast
    with Cons pc show ?thesis by simp
  qed
qed

lemma Plus_AtLeast: "Plus a = AtLeast 1 a"
  by (simp add: Plus_def)

lemma length_takeWhile_dropWhile: "length s - length (dropWhile P s) = length (takeWhile P s)"
proof -
  have "length (takeWhile P s) + length (dropWhile P s) = length s"
    by (metis length_append takeWhile_dropWhile_id)
  then show ?thesis by simp
qed

lemma take_length_dropWhile: "take (length s - length (dropWhile P s)) s = takeWhile P s"
  by (metis length_takeWhile_dropWhile append_eq_conv_conj takeWhile_dropWhile_id)

lemma matchAll_Nil: "0 < k \<Longrightarrow> matchAll (AtLeast k (Cls P)) [] = []"
  by (subst matchAll.simps) (simp add: rmatch_AtLeast_Nil)

lemma matchAll_skip:
  "length (takeWhile P (c # cs)) < k \<Longrightarrow>
   matchAll (AtLeast k (Cls P)) (c # cs) = matchAll (AtLeast k (Cls P)) cs"
  by (subst matchAll.simps) (simp add: rmatch_AtLeast_short del: takeWhile.simps)

lemma matchAll_take:
  assumes "P c" "0 < k" "k \<le> length (takeWhile P (c # cs))"
  shows "matchAll (AtLeast k (Cls P)) (c # cs) =
           takeWhile P (c # cs) # matchAll (AtLeast k (Cls P)) (dropWhile P cs)"
proof -
  from rmatch_AtLeast_long[OF assms(3)] obtain rs
    where r: "rmatch (AtLeast k (Cls P)) (c # cs) = dropWhile P (c # cs) # rs" by blast
  have d: "dropWhile P (c # cs) = dropWhile P cs" using assms(1) by simp
  have l: "length (dropWhile P cs) < length (c # cs)"
    using length_dropWhile_le[of P cs] by simp
  have t: "take (length (c # cs) - length (dropWhile P cs)) (c # cs) = takeWhile P (c # cs)"
    using take_length_dropWhile[of "c # cs" P] d by simp
  show ?thesis
    by (subst matchAll.simps) (simp only: r d l t list.case if_True)
qed

lemma ws_tokens_Nil: "ws_tokens [] = []"
  by (subst ws_tokens.simps) simp

lemma ws_tokens_skip: "is_space c \<Longrightarrow> ws_tokens (c # cs) = ws_tokens cs"
  by (subst ws_tokens.simps, subst (2) ws_tokens.simps) simp

lemma ws_tokens_take:
  "\<not> is_space c \<Longrightarrow>
   ws_tokens (c # cs) = takeWhile non_space (c # cs) # ws_tokens (dropWhile non_space cs)"
  by (subst ws_tokens.simps) simp

lemma matchAll_ws_tokens: "matchAll (Plus (Cls non_space)) s = ws_tokens s"
proof (induction "length s" arbitrary: s rule: less_induct)
  case less
  show ?case
  proof (cases s)
    case Nil
    then show ?thesis by (simp add: Plus_AtLeast matchAll_Nil ws_tokens_Nil del: AtLeast.simps)
  next
    case (Cons c cs)
    show ?thesis
    proof (cases "is_space c")
      case True
      then have "length (takeWhile non_space (c # cs)) < 1" by (simp add: non_space_def)
      then have "matchAll (Plus (Cls non_space)) s = matchAll (Plus (Cls non_space)) cs"
        unfolding Plus_AtLeast Cons by (rule matchAll_skip)
      also have "\<dots> = ws_tokens cs" using less[of cs] Cons by simp
      finally show ?thesis using True Cons by (simp add: ws_tokens_skip)
    next
      case False
      then have p: "non_space c" by (simp add: non_space_def)
      then have "1 \<le> length (takeWhile non_space (c # cs))" by simp
      with p have "matchAll (Plus (Cls non_space)) s =
          takeWhile non_space (c # cs) # matchAll (Plus (Cls non_space)) (dropWhile non_space cs)"
        unfolding Plus_AtLeast Cons by (intro matchAll_take) simp_all
      moreover have "length (dropWhile non_space cs) < length s"
        using length_dropWhile_le[of non_space cs] Cons by simp
      ultimately show ?thesis using less[of "dropWhile non_space cs"] False Cons
        by (simp add: ws_tokens_take)
    qed
  qed
qed

lemma tokensFromText_ws_tokens: "tokensFromText s = ws_tokens s"
  by (simp add: tokensFromText_def match_g_def matchAll_ws_tokens split: list.splits)

lemma ws_tokens_tokens:
  "t \<in> set (ws_tokens s) \<Longrightarrow> t \<noteq> [] \<and> (\<forall>c \<in> set t. \<not> is_space c)"
proof (induction s arbitrary: t rule: ws_tokens.induct)
  case (1 s)
  show ?case
  proof (cases "dropWhile is_space s")
    case Nil
    with "1.prems" show ?thesis by (subst (asm) ws_tokens.simps) simp
  next
    case (Cons c cs)
    then have nc: "\<not> is_space c" using hd_dropWhile[of is_space s] by simp
    from "1.prems" Cons consider "t = takeWhile non_space (c # cs)"
      | "t \<in> set (ws_tokens (dropWhile non_space cs))"
      by (subst (asm) ws_tokens.simps) auto
    then show ?thesis
    proof cases
      case 1
      then have "t \<noteq> []" using nc by (simp add: non_space_def)
      moreover have "\<forall>x \<in> set t. \<not> is_space x"
        unfolding 1 by (auto dest: set_takeWhileD simp: non_space_def)
      ultimately show ?thesis by simp
    next
      case 2
      then show ?thesis using "1.IH"[OF Cons] by simp
    qed
  qed
qed

text \<open>
  Claim C6. The pipeline is 1:1 and order-preserving: \<open>buildWordUnits text\<close> has as many
  WordUnits as \<open>normalizeForWords text\<close> has whitespace-delimited maximal non-whitespace
  substrings, the i-th WordUnit is the decomposition and assembly of the i-th of them, and
  its \<open>word\<close> is that token itself, so tokens are neither merged, split nor reordered.
  The tokenizer returns exactly these substrings, each non-empty and free of whitespace.
\<close>

theorem pipeline_one_to_one:
  "length (buildWordUnits text) = length (ws_tokens (normalizeForWords text)) \<and>
   buildWordUnits text = map processToken (ws_tokens (normalizeForWords text)) \<and>
   map word (buildWordUnits text) = ws_tokens (normalizeForWords text) \<and>
   (\<forall>i < length (ws_tokens (normalizeForWords text)).
      buildWordUnits text ! i = processToken (ws_tokens (normalizeForWords text) ! i) \<and>
      word (buildWordUnits text ! i) = ws_tokens (normalizeForWords text) ! i) \<and>
   tokensFromText text = ws_tokens text \<and>
   (\<forall>t \<in> set (tokensFromText text). t \<noteq> [] \<and> list_all non_space t)"
proof -
  have b: "buildWordUnits text = map processToken (ws_tokens (normalizeForWords text))"
    by (simp add: buildWordUnits_def processTokens_def tokensFromText_ws_tokens)
  have w: "map word (buildWordUnits text) = ws_tokens (normalizeForWords text)"
    unfolding b by (simp add: processToken_word comp_def)
  have t: "\<forall>t \<in> set (tokensFromText text). t \<noteq> [] \<and> list_all non_space t"
    using ws_tokens_tokens[of _ "text"]
    by (simp add: tokensFromText_ws_tokens list_all_iff non_space_def)
  show ?thesis using w t unfolding b by (simp add: processToken_word tokensFromText_ws_tokens)
qed

theorem pipeline_one_to_one_witness:
  "ws_tokens (normalizeForWords (js '' say  (hello) twice '')) = [js ''say'', js ''(hello)'', js ''twice''] \<and>
   (1::nat) < length (ws_tokens (normalizeForWords (js '' say  (hello) twice ''))) \<and>
   buildWordUnits (js '' say  (hello) twice '') ! 1 = processToken (js ''(hello)'') \<and>
   word (buildWordUnits (js '' say  (hello) twice '') ! 1) = js ''(hello)''"
proof -
  have t: "ws_tokens (normalizeForWords (js '' say  (hello) twice '')) = [js ''say'', js ''(hello)'', js ''twice'']"
    by code_simp
  have l: "(1::nat) < length (ws_tokens (normalizeForWords (js '' say  (hello) twice '')))"
    unfolding t by simp
  from pipeline_one_to_one[of "js '' say  (hello) twice ''"] l
  have a: "buildWordUnits (js '' say  (hello) twice '') ! 1
          = processToken (ws_tokens (normalizeForWords (js '' say  (hello) twice '')) ! 1)"
   and b: "word (buildWordUnits (js '' say  (hello) twice '') ! 1)
          = ws_tokens (normalizeForWords (js '' say  (hello) twice '')) ! 1"
    by blast+
  have a': "buildWordUnits (js '' say  (hello) twice '') ! 1 = processToken (js ''(hello)'')"
    using a unfolding t by simp
  have b': "word (buildWordUnits (js '' say  (hello) twice '') ! 1) = js ''(hello)''"
    using b unfolding t by simp
  show ?thesis using t l a' b' by blast
qed

subsection \<open>The language of the word pattern\<close>

lemma star_Cls: "star (lang (Cls P)) = {w. \<forall>c \<in> set w. P c}"
proof (intro set_eqI iffI)
  fix w assume "w \<in> star (lang (Cls P))"
  then show "w \<in> {w. \<forall>c \<in> set w. P c}" by (induction rule: star.induct) auto
next
  fix w assume "w \<in> {w. \<forall>c \<in> set w. P c}"
  then have "\<forall>c \<in> set w. P c" by simp
  then show "w \<in> star (lang (Cls P))"
  proof (induction w)
    case Nil
    show ?case by (rule star_nil)
  next
    case (Cons c w)
    then have "[c] \<in> lang (Cls P)" "w \<in> star (lang (Cls P))" by auto
    then have "[c] @ w \<in> star (lang (Cls P))" by (rule star_step)
    then show ?case by simp
  qed
qed

lemma star_Cls_unfolded: "star {[c] | c. P c} = {w. \<forall>c \<in> set w. P c}"
  using star_Cls[of P] by simp

lemma lang_Star_Cls: "lang (Star (Cls P)) = {w. \<forall>c \<in> set w. P c}"
  by (simp add: star_Cls_unfolded)

lemma lang_Plus_Cls: "lang (Plus (Cls P)) = {w. w \<noteq> [] \<and> (\<forall>c \<in> set w. P c)}"
proof (intro set_eqI iffI)
  fix w assume "w \<in> lang (Plus (Cls P))"
  then show "w \<in> {w. w \<noteq> [] \<and> (\<forall>c \<in> set w. P c)}"
    by (auto simp: Plus_def star_Cls_unfolded)
next
  fix w assume "w \<in> {w. w \<noteq> [] \<and> (\<forall>c \<in> set w. P c)}"
  then obtain c v where w: "w = [c] @ v" "P c" "\<forall>x \<in> set v. P x" by (cases w) auto
  have "[c] \<in> lang (Cls P)" using w(2) by simp
  moreover have "v \<in> lang (Star (Cls P))" using w(3) by (simp add: star_Cls_unfolded)
  ultimately show "w \<in> lang (Plus (Cls P))" unfolding Plus_def lang.simps(2) w(1) by blast
qed

lemma joiner_not_alnum: "is_joiner j \<Longrightarrow> \<not> is_alnum j"
  by (auto simp: is_joiner_def is_alnum_def)

lemma core_form_run:
  assumes "u \<noteq> []" "\<forall>c \<in> set u. is_alnum c"
  shows "core_form u"
proof -
  have td: "takeWhile is_alnum u = u" "dropWhile is_alnum u = []" using assms(2) by simp_all
  show ?thesis using assms(1) by (subst core_form.simps) (simp add: td assms(1))
qed

lemma core_form_ext:
  assumes "u \<noteq> []" "\<forall>c \<in> set u. is_alnum c" "is_joiner j" "core_form rest"
  shows "core_form (u @ j # rest)"
proof -
  have nj: "\<not> is_alnum j" using assms(3) by (rule joiner_not_alnum)
  have t: "takeWhile is_alnum (u @ j # rest) = u" using assms(2) nj
    by (simp add: takeWhile_append2)
  have d: "dropWhile is_alnum (u @ j # rest) = j # rest" using assms(2) nj
    by (simp add: dropWhile_append2)
  show ?thesis by (subst core_form.simps) (simp add: t d assms(1,3,4))
qed

lemma core_form_cases:
  assumes "core_form s"
  obtains "s \<noteq> []" "\<forall>c \<in> set s. is_alnum c"
  | u j rest where "s = u @ j # rest" "u \<noteq> []" "\<forall>c \<in> set u. is_alnum c" "is_joiner j" "core_form rest"
proof (cases "dropWhile is_alnum s")
  case Nil
  from assms have "takeWhile is_alnum s \<noteq> []" by (subst (asm) core_form.simps) simp
  then have "s \<noteq> []" by auto
  moreover have "\<forall>c \<in> set s. is_alnum c" using Nil by (simp add: dropWhile_eq_Nil_conv)
  ultimately show ?thesis by (rule that(1))
next
  case (Cons j rest)
  from assms Cons have a: "takeWhile is_alnum s \<noteq> []" "is_joiner j" "core_form rest"
    by (subst (asm) core_form.simps, simp)+
  have "s = takeWhile is_alnum s @ j # rest" using Cons takeWhile_dropWhile_id[of is_alnum s] by simp
  moreover have "\<forall>c \<in> set (takeWhile is_alnum s). is_alnum c" by (auto dest: set_takeWhileD)
  ultimately show ?thesis using a by (intro that(2)[of "takeWhile is_alnum s" j rest])
qed

lemma lang_group:
  "lang (Seq (Cls is_joiner) (Plus (Cls is_alnum)))
     = {j # w | j w. is_joiner j \<and> w \<noteq> [] \<and> (\<forall>c \<in> set w. is_alnum c)}"
proof (intro set_eqI iffI)
  fix g assume "g \<in> lang (Seq (Cls is_joiner) (Plus (Cls is_alnum)))"
  then show "g \<in> {j # w | j w. is_joiner j \<and> w \<noteq> [] \<and> (\<forall>c \<in> set w. is_alnum c)}"
    unfolding lang.simps(2) lang_Plus_Cls by auto
next
  fix g assume "g \<in> {j # w | j w. is_joiner j \<and> w \<noteq> [] \<and> (\<forall>c \<in> set w. is_alnum c)}"
  then obtain j w where g: "g = [j] @ w" "is_joiner j" "w \<noteq> []" "\<forall>c \<in> set w. is_alnum c"
    by auto
  have "[j] \<in> lang (Cls is_joiner)" using g(2) by simp
  moreover have "w \<in> lang (Plus (Cls is_alnum))" using g(3,4) by (simp add: lang_Plus_Cls)
  ultimately show "g \<in> lang (Seq (Cls is_joiner) (Plus (Cls is_alnum)))"
    unfolding lang.simps(2) g(1) by blast
qed

lemma star_group_core_form:
  assumes "v \<in> star (lang (Seq (Cls is_joiner) (Plus (Cls is_alnum))))"
    and "u \<noteq> []" "\<forall>c \<in> set u. is_alnum c"
  shows "core_form (u @ v)"
  using assms
proof (induction arbitrary: u rule: star.induct)
  case star_nil
  then show ?case by (simp add: core_form_run)
next
  case (star_step g v)
  from star_step.hyps(1) obtain j w where g: "g = j # w" "is_joiner j" "w \<noteq> []" "\<forall>c \<in> set w. is_alnum c"
    unfolding lang_group by blast
  have "core_form (w @ v)" using star_step.IH[OF g(3,4)] .
  then have "core_form (u @ j # (w @ v))" using star_step.prems g(2) by (intro core_form_ext)
  then show ?case using g(1) by simp
qed

lemma lang_CORE_RE_core_form: "c \<in> lang CORE_RE \<Longrightarrow> core_form c"
proof -
  assume "c \<in> lang CORE_RE"
  then obtain u v where "c = u @ v" "u \<in> lang (Plus (Cls is_alnum))"
    "v \<in> star (lang (Seq (Cls is_joiner) (Plus (Cls is_alnum))))"
    unfolding CORE_RE_def by auto
  then show ?thesis using star_group_core_form[of v u] by (simp add: lang_Plus_Cls)
qed

lemma core_form_lang_CORE_RE: "core_form c \<Longrightarrow> c \<in> lang CORE_RE"
proof (induction c rule: core_form.induct)
  case (1 s)
  from "1.prems" show ?case
  proof (cases rule: core_form_cases)
    case 1
    then have "s \<in> lang (Plus (Cls is_alnum))" by (simp add: lang_Plus_Cls)
    moreover have "[] \<in> star (lang (Seq (Cls is_joiner) (Plus (Cls is_alnum))))" by (rule star_nil)
    ultimately have "s @ [] \<in> lang CORE_RE" unfolding CORE_RE_def lang.simps by blast
    then show ?thesis by simp
  next
    case (2 u j rest)
    have nj: "\<not> is_alnum j" using 2(4) by (rule joiner_not_alnum)
    have "dropWhile is_alnum s = j # rest" using 2(1,3) nj by (simp add: dropWhile_append2)
    from "1.IH"[OF this 2(5)] obtain u' v' where r: "rest = u' @ v'"
      "u' \<in> lang (Plus (Cls is_alnum))" "v' \<in> star (lang (Seq (Cls is_joiner) (Plus (Cls is_alnum))))"
      unfolding CORE_RE_def by auto
    have "j # u' \<in> lang (Seq (Cls is_joiner) (Plus (Cls is_alnum)))"
      using r(2) 2(4) unfolding lang_group lang_Plus_Cls by blast
    then have "(j # u') @ v' \<in> star (lang (Seq (Cls is_joiner) (Plus (Cls is_alnum))))"
      using r(3) by (rule star_step)
    moreover have "u \<in> lang (Plus (Cls is_alnum))" using 2(2,3) by (simp add: lang_Plus_Cls)
    ultimately have "u @ ((j # u') @ v') \<in> lang CORE_RE" unfolding CORE_RE_def lang.simps by blast
    then show ?thesis using 2(1) r(1) by simp
  qed
qed

lemma lang_CORE_RE: "c \<in> lang CORE_RE \<longleftrightarrow> core_form c"
  using lang_CORE_RE_core_form core_form_lang_CORE_RE by blast

lemma WORD_CORE_RE_groups: "WORD_CORE_RE = (Star (Cls non_alnum), CORE_RE, Star (Cls non_alnum))"
  by (simp add: WORD_CORE_RE_def CORE_RE_def)

lemma core_form_hd: "core_form c \<Longrightarrow> c \<noteq> [] \<and> is_alnum (hd c)"
proof -
  assume "core_form c"
  then have "takeWhile is_alnum c \<noteq> []" by (subst (asm) core_form.simps) simp
  then show ?thesis by (cases c) (auto split: if_splits)
qed

lemma core_form_last: "core_form c \<Longrightarrow> is_alnum (last c)"
proof (induction c rule: core_form.induct)
  case (1 s)
  from "1.prems" show ?case
  proof (cases rule: core_form_cases)
    case 1
    then show ?thesis by simp
  next
    case (2 u j rest)
    have nj: "\<not> is_alnum j" using 2(4) by (rule joiner_not_alnum)
    have d: "dropWhile is_alnum s = j # rest" using 2(1,3) nj by (simp add: dropWhile_append2)
    have "rest \<noteq> []" using core_form_hd[OF 2(5)] by simp
    then have "last s = last rest" using 2(1) by simp
    then show ?thesis using "1.IH"[OF d 2(5)] by simp
  qed
qed

lemma core_form_chars: "core_form c \<Longrightarrow> \<forall>x \<in> set c. is_alnum x \<or> is_joiner x"
proof (induction c rule: core_form.induct)
  case (1 s)
  from "1.prems" show ?case
  proof (cases rule: core_form_cases)
    case 1
    then show ?thesis by simp
  next
    case (2 u j rest)
    have nj: "\<not> is_alnum j" using 2(4) by (rule joiner_not_alnum)
    have d: "dropWhile is_alnum s = j # rest" using 2(1,3) nj by (simp add: dropWhile_append2)
    show ?thesis using "1.IH"[OF d 2(5)] 2(1,3,4) by auto
  qed
qed

lemma shape_unique:
  assumes "\<forall>x \<in> set l. non_alnum x" "core_form c" "\<forall>x \<in> set t. non_alnum x"
  shows "lead_run (l @ c @ t) = l" and "trail_run (l @ c @ t) = t" and "middle (l @ c @ t) = c"
proof -
  from core_form_hd[OF assms(2)] obtain a c' where c: "c = a # c'" "is_alnum a"
    by (cases c) auto
  from core_form_hd[OF assms(2)] core_form_last[OF assms(2)]
  obtain c'' b where cr: "c = c'' @ [b]" "is_alnum b"
    by (cases c rule: rev_cases) auto
  have t1: "takeWhile non_alnum (l @ c @ t) = l" using assms(1) c
    by (simp add: takeWhile_append2 non_alnum_def)
  have d1: "dropWhile non_alnum (l @ c @ t) = c @ t" using assms(1) c
    by (simp add: dropWhile_append2 non_alnum_def)
  have rt: "\<And>x. x \<in> set (rev t) \<Longrightarrow> non_alnum x" using assms(3) by simp
  have nb: "\<not> non_alnum b" using cr(2) by (simp add: non_alnum_def)
  have "takeWhile non_alnum (rev t @ (b # rev c'' @ rev l))
          = rev t @ takeWhile non_alnum (b # rev c'' @ rev l)"
    using rt by (rule takeWhile_append2)
  then have t2: "takeWhile non_alnum (rev t @ rev c @ rev l) = rev t" using cr(1) nb by simp
  have "dropWhile non_alnum (rev t @ (b # rev c'')) = dropWhile non_alnum (b # rev c'')"
    using rt by (rule dropWhile_append2)
  then have d2: "dropWhile non_alnum (rev t @ rev c) = rev c" using cr(1) nb by simp
  show "lead_run (l @ c @ t) = l" by (simp add: lead_run_def t1)
  show "trail_run (l @ c @ t) = t" using t2 by (simp add: trail_run_def)
  show "middle (l @ c @ t) = c" using d2 by (simp add: middle_def d1)
qed

lemma exec3_WORD_CORE_RE_SomeD:
  assumes "exec3 WORD_CORE_RE s = Some (l, c, t)"
  shows "s = l @ c @ t \<and> (\<forall>x \<in> set l. non_alnum x) \<and> core_form c \<and> (\<forall>x \<in> set t. non_alnum x)"
  using exec3_SomeD[OF assms[unfolded WORD_CORE_RE_groups]]
  unfolding lang_Star_Cls lang_CORE_RE by simp

lemma exec3_WORD_CORE_RE_SomeI:
  assumes "\<forall>x \<in> set l. non_alnum x" "core_form c" "\<forall>x \<in> set t. non_alnum x"
  shows "exec3 WORD_CORE_RE (l @ c @ t) = Some (l, c, t)"
proof -
  have "exec3 WORD_CORE_RE (l @ c @ t) \<noteq> None"
    unfolding WORD_CORE_RE_groups using assms
    by (intro exec3_complete; unfold lang_Star_Cls lang_CORE_RE) simp_all
  then obtain l' c' t' where e: "exec3 WORD_CORE_RE (l @ c @ t) = Some (l', c', t')"
    by (cases "exec3 WORD_CORE_RE (l @ c @ t)") auto
  from exec3_WORD_CORE_RE_SomeD[OF e]
  have s: "l @ c @ t = l' @ c' @ t'" and p: "\<forall>x \<in> set l'. non_alnum x" "core_form c'" "\<forall>x \<in> set t'. non_alnum x"
    by simp_all
  have "l' = lead_run (l' @ c' @ t')" "c' = middle (l' @ c' @ t')" "t' = trail_run (l' @ c' @ t')"
    using shape_unique[OF p] by simp_all
  then have "l' = l" "c' = c" "t' = t" using shape_unique[OF assms] unfolding s[symmetric] by simp_all
  then show ?thesis using e by simp
qed

lemma runs_decompose:
  assumes "middle s \<noteq> []"
  shows "s = lead_run s @ middle s @ trail_run s"
    and "\<forall>x \<in> set (lead_run s). non_alnum x" and "\<forall>x \<in> set (trail_run s). non_alnum x"
proof -
  let ?d = "dropWhile non_alnum s"
  have "dropWhile non_alnum (rev ?d) \<noteq> []" using assms by (simp add: middle_def)
  then obtain x where x: "x \<in> set (rev ?d)" "\<not> non_alnum x"
    by (auto simp: dropWhile_eq_Nil_conv)
  have "rev s = rev ?d @ rev (takeWhile non_alnum s)"
    by (metis rev_append takeWhile_dropWhile_id)
  then have "takeWhile non_alnum (rev s) = takeWhile non_alnum (rev ?d)"
    using takeWhile_append1[of x "rev ?d" non_alnum, OF x] by simp
  then have tr: "trail_run s = rev (takeWhile non_alnum (rev ?d))" by (simp add: trail_run_def)
  have "rev ?d = takeWhile non_alnum (rev ?d) @ dropWhile non_alnum (rev ?d)" by simp
  then have "?d = rev (dropWhile non_alnum (rev ?d)) @ rev (takeWhile non_alnum (rev ?d))"
    by (metis rev_append rev_rev_ident)
  then have "?d = middle s @ trail_run s" by (simp add: middle_def tr)
  then show "s = lead_run s @ middle s @ trail_run s"
    unfolding lead_run_def by (metis takeWhile_dropWhile_id)
  show "\<forall>x \<in> set (lead_run s). non_alnum x" by (auto simp: lead_run_def dest: set_takeWhileD)
  show "\<forall>x \<in> set (trail_run s). non_alnum x" by (auto simp: trail_run_def dest: set_takeWhileD)
qed

lemma split_shape:
  "splitLeadingCoreTrailing s =
     (if core_form (middle s)
      then \<lparr>leading = lead_run s, core = middle s, trailing = trail_run s\<rparr>
      else \<lparr>leading = [], core = s, trailing = []\<rparr>)"
proof (cases "core_form (middle s)")
  case True
  then have "middle s \<noteq> []" using core_form_hd by blast
  from runs_decompose[OF this]
  have "exec3 WORD_CORE_RE s = Some (lead_run s, middle s, trail_run s)"
    using exec3_WORD_CORE_RE_SomeI[of "lead_run s" "middle s" "trail_run s"] True by simp
  then show ?thesis using True by (simp add: splitLeadingCoreTrailing_def)
next
  case False
  have "exec3 WORD_CORE_RE s = None"
  proof (rule ccontr)
    assume "exec3 WORD_CORE_RE s \<noteq> None"
    then obtain l c t where e: "exec3 WORD_CORE_RE s = Some (l, c, t)" by auto
    from exec3_WORD_CORE_RE_SomeD[OF e] shape_unique(3)[of l c t] have "core_form (middle s)" by simp
    with False show False by simp
  qed
  then show ?thesis using False by (simp add: splitLeadingCoreTrailing_def)
qed

lemma no_alnum_no_core: "\<not> list_ex is_alnum s \<Longrightarrow> \<not> core_form (middle s)"
proof
  assume n: "\<not> list_ex is_alnum s" and c: "core_form (middle s)"
  from n have "\<forall>x \<in> set s. non_alnum x" by (simp add: list_ex_iff non_alnum_def)
  then have d: "dropWhile non_alnum s = []" by (simp add: dropWhile_eq_Nil_conv)
  have "middle s = []" unfolding middle_def d by simp
  with c core_form_hd show False by blast
qed

lemma non_ascii_non_alnum: "0x80 \<le> c \<Longrightarrow> non_alnum c"
  unfolding non_alnum_def is_alnum_def word_le_nat_alt by simp

lemma non_ascii_not_joiner: "0x80 \<le> c \<Longrightarrow> \<not> is_joiner c"
  unfolding is_joiner_def word_le_nat_alt by auto

lemma middle_id: "s \<noteq> [] \<Longrightarrow> is_alnum (hd s) \<Longrightarrow> is_alnum (last s) \<Longrightarrow> middle s = s"
proof -
  assume a: "s \<noteq> []" "is_alnum (hd s)" "is_alnum (last s)"
  then have d: "dropWhile non_alnum s = s" by (cases s) (simp_all add: non_alnum_def)
  from a have "dropWhile non_alnum (rev s) = rev s"
    by (cases s rule: rev_cases) (simp_all add: non_alnum_def)
  then show ?thesis by (simp add: middle_def d)
qed

lemma is_alnum_unat:
  "is_alnum c \<longleftrightarrow> unat c \<in> {65..<91} \<union> {97..<123} \<union> {48..<58}"
  unfolding is_alnum_def word_le_nat_alt by auto

lemma is_alnum_list:
  "is_alnum c \<longleftrightarrow>
     c \<in> set (js ''ABCDEFGHIJKLMNOPQRSTUVWXYZabcdefghijklmnopqrstuvwxyz0123456789'')"
proof -
  have e: "js ''ABCDEFGHIJKLMNOPQRSTUVWXYZabcdefghijklmnopqrstuvwxyz0123456789''
        = map of_nat ([65..<91] @ [97..<123] @ [48..<58])"
    by (simp add: js_def upt_rec_numeral)
  have "is_alnum c \<longleftrightarrow> unat c \<in> set ([65..<91] @ [97..<123] @ [48..<58])"
    by (simp only: is_alnum_unat set_append set_upt Un_assoc)
  also have "\<dots> \<longleftrightarrow> c \<in> set (map of_nat ([65..<91] @ [97..<123] @ [48..<58]))"
  proof
    assume "unat c \<in> set ([65..<91] @ [97..<123] @ [48..<58])"
    then have "of_nat (unat c) \<in> (of_nat ` set ([65..<91] @ [97..<123] @ [48..<58]) :: jschar set)"
      by (rule imageI)
    moreover have "(of_nat (unat c) :: jschar) = c" by simp
    ultimately show "c \<in> set (map of_nat ([65..<91] @ [97..<123] @ [48..<58]))"
      by (simp only: set_map)
  next
    assume "c \<in> set (map of_nat ([65..<91] @ [97..<123] @ [48..<58]))"
    then obtain n where n: "c = of_nat n" "n \<in> set ([65..<91] @ [97..<123] @ [48..<58])"
      unfolding set_map by blast
    from n(2) have "n < 123" unfolding set_append set_upt by auto
    then have "n < 2 ^ 16" by simp
    then have "unat c = n" using n(1) by (intro of_nat_inverse) simp_all
    then show "unat c \<in> set ([65..<91] @ [97..<123] @ [48..<58])" using n(2) by simp
  qed
  finally show ?thesis unfolding e .
qed

subsection \<open>Claims about the decomposer\<close>

text \<open>
  Claim C4, as stated: a token with an alphanumeric character gets the maximal leading and
  trailing non-alphanumeric runs. The token \<open>(a.b)\<close> has alphanumeric characters, but the
  pattern does not match it and the fallback returns it whole, with empty leading and
  trailing.
\<close>

theorem decomposer_runs_counterexample:
  "list_ex is_alnum (js ''(a.b)'') \<and>
   lead_run (js ''(a.b)'') = js ''('' \<and>
   trail_run (js ''(a.b)'') = js '')'' \<and>
   leading (splitLeadingCoreTrailing (js ''(a.b)'')) \<noteq> lead_run (js ''(a.b)'') \<and>
   trailing (splitLeadingCoreTrailing (js ''(a.b)'')) \<noteq> trail_run (js ''(a.b)'') \<and>
   splitLeadingCoreTrailing (js ''(a.b)'') = \<lparr>leading = [], core = js ''(a.b)'', trailing = []\<rparr>"
  by code_simp

text \<open>
  Claim C4, amended. Let the middle of a token be what remains after removing the maximal
  non-alphanumeric runs at both ends. If the middle is an alphanumeric run extended by
  groups of (apostrophe or hyphen, then an alphanumeric run), the decomposer returns the
  maximal leading run, the middle as core, and the maximal trailing run. Every other token
  gets the whole-token fallback with empty leading and trailing; this includes every token
  without an alphanumeric character.
\<close>

theorem decomposer_shape:
  "(core_form (middle token) \<longrightarrow>
      splitLeadingCoreTrailing token
        = \<lparr>leading = lead_run token, core = middle token, trailing = trail_run token\<rparr>) \<and>
   (\<not> core_form (middle token) \<longrightarrow>
      splitLeadingCoreTrailing token = \<lparr>leading = [], core = token, trailing = []\<rparr>) \<and>
   (\<not> list_ex is_alnum token \<longrightarrow>
      splitLeadingCoreTrailing token = \<lparr>leading = [], core = token, trailing = []\<rparr>)"
  using no_alnum_no_core[of token] by (simp add: split_shape)

theorem decomposer_shape_witness:
  "core_form (middle (js ''(hello),'')) \<and>
   splitLeadingCoreTrailing (js ''(hello),'')
     = \<lparr>leading = js ''('', core = js ''hello'', trailing = js ''),''\<rparr> \<and>
   \<not> core_form (middle (js ''a--b'')) \<and>
   splitLeadingCoreTrailing (js ''a--b'') = \<lparr>leading = [], core = js ''a--b'', trailing = []\<rparr> \<and>
   \<not> list_ex is_alnum (js ''---'') \<and>
   splitLeadingCoreTrailing (js ''---'') = \<lparr>leading = [], core = js ''---'', trailing = []\<rparr>"
proof -
  have h: "core_form (middle (js ''(hello),''))" by code_simp
  have r: "lead_run (js ''(hello),'') = js ''(''" "middle (js ''(hello),'') = js ''hello''"
    "trail_run (js ''(hello),'') = js ''),''"
    by code_simp+
  have a: "\<not> core_form (middle (js ''a--b''))" by code_simp
  have n: "\<not> list_ex is_alnum (js ''---'')" by code_simp
  from decomposer_shape[of "js ''(hello),''"] h
  have 1: "splitLeadingCoreTrailing (js ''(hello),'')
     = \<lparr>leading = js ''('', core = js ''hello'', trailing = js ''),''\<rparr>"
    unfolding r by blast
  from decomposer_shape[of "js ''a--b''"] a
  have 2: "splitLeadingCoreTrailing (js ''a--b'') = \<lparr>leading = [], core = js ''a--b'', trailing = []\<rparr>"
    by blast
  from decomposer_shape[of "js ''---''"] n
  have 3: "splitLeadingCoreTrailing (js ''---'') = \<lparr>leading = [], core = js ''---'', trailing = []\<rparr>"
    by blast
  show ?thesis using h a n 1 2 3 by blast
qed

text \<open>
  Claim C5. A token that is an alphanumeric run extended by groups of (apostrophe or hyphen,
  then an alphanumeric run) is matched by the pattern as a single core, with empty leading
  and trailing; and \<open>buildWordUnits\<close> on \<open>don't stop\<close> yields exactly the two WordUnits
  \<open>don't\<close> and \<open>stop\<close>, whose cores are the whole tokens.
\<close>

theorem internal_joiners_single_core:
  "(core_form token \<longrightarrow>
      exec3 WORD_CORE_RE token = Some ([], token, []) \<and>
      splitLeadingCoreTrailing token = \<lparr>leading = [], core = token, trailing = []\<rparr>) \<and>
   buildWordUnits (js ''don't stop'')
     = [\<lparr>word = js ''don't'', orpIndex = 1\<rparr>, \<lparr>word = js ''stop'', orpIndex = 1\<rparr>] \<and>
   map splitLeadingCoreTrailing (tokensFromText (normalizeForWords (js ''don't stop'')))
     = [\<lparr>leading = [], core = js ''don't'', trailing = []\<rparr>,
        \<lparr>leading = [], core = js ''stop'', trailing = []\<rparr>]"
proof -
  have g: "core_form token \<longrightarrow>
      exec3 WORD_CORE_RE token = Some ([], token, []) \<and>
      splitLeadingCoreTrailing token = \<lparr>leading = [], core = token, trailing = []\<rparr>"
  proof
    assume c: "core_form token"
    have e: "exec3 WORD_CORE_RE token = Some ([], token, [])"
      using exec3_WORD_CORE_RE_SomeI[of "[]" token "[]"] c by simp
    then show "exec3 WORD_CORE_RE token = Some ([], token, []) \<and>
      splitLeadingCoreTrailing token = \<lparr>leading = [], core = token, trailing = []\<rparr>"
      by (simp add: splitLeadingCoreTrailing_def)
  qed
  have b: "buildWordUnits (js ''don't stop'')
     = [\<lparr>word = js ''don't'', orpIndex = 1\<rparr>, \<lparr>word = js ''stop'', orpIndex = 1\<rparr>]"
    by code_simp
  have m: "map splitLeadingCoreTrailing (tokensFromText (normalizeForWords (js ''don't stop'')))
     = [\<lparr>leading = [], core = js ''don't'', trailing = []\<rparr>,
        \<lparr>leading = [], core = js ''stop'', trailing = []\<rparr>]"
    by code_simp
  show ?thesis using g b m by blast
qed

theorem internal_joiners_single_core_witness:
  "core_form (js ''O'Brien-ish'') \<and>
   exec3 WORD_CORE_RE (js ''O'Brien-ish'') = Some ([], js ''O'Brien-ish'', []) \<and>
   splitLeadingCoreTrailing (js ''O'Brien-ish'')
     = \<lparr>leading = [], core = js ''O'Brien-ish'', trailing = []\<rparr>"
proof -
  have c: "core_form (js ''O'Brien-ish'')" by code_simp
  from internal_joiners_single_core[of "js ''O'Brien-ish''"] c
  show ?thesis by blast
qed

lemma split_non_ascii_affixes:
  assumes "core_form w" "\<forall>x \<in> set l. 0x80 \<le> x" "\<forall>x \<in> set t. 0x80 \<le> x"
  shows "splitLeadingCoreTrailing (l @ w @ t) = \<lparr>leading = l, core = w, trailing = t\<rparr>"
proof -
  have "\<forall>x \<in> set l. non_alnum x" "\<forall>x \<in> set t. non_alnum x"
    using assms(2,3) non_ascii_non_alnum by blast+
  then have "exec3 WORD_CORE_RE (l @ w @ t) = Some (l, w, t)"
    using assms(1) by (intro exec3_WORD_CORE_RE_SomeI)
  then show ?thesis by (simp add: splitLeadingCoreTrailing_def)
qed

lemma processToken_of_split:
  assumes "splitLeadingCoreTrailing raw = \<lparr>leading = l, core = c, trailing = t\<rparr>"
  shows "processToken raw = \<lparr>word = l @ c @ t, orpIndex = int (length l) + calculateOrpCore c\<rparr>"
  unfolding processToken_unclamped_eq processToken_unclamped_def using assms by simp

lemma split_non_ascii_inside:
  assumes "core_form w1" "core_form w2" "0x80 \<le> c"
  shows "splitLeadingCoreTrailing (w1 @ [c] @ w2) = \<lparr>leading = [], core = w1 @ [c] @ w2, trailing = []\<rparr>"
proof -
  let ?s = "w1 @ [c] @ w2"
  have h: "w1 \<noteq> []" "is_alnum (hd w1)" using core_form_hd[OF assms(1)] by simp_all
  have l: "w2 \<noteq> []" "is_alnum (last w2)"
    using core_form_hd[OF assms(2)] core_form_last[OF assms(2)] by simp_all
  have "middle ?s = ?s" using h l by (intro middle_id) simp_all
  moreover have "\<not> core_form ?s"
  proof
    assume "core_form ?s"
    from core_form_chars[OF this] have "is_alnum c \<or> is_joiner c" by simp
    then show False
      using non_ascii_non_alnum[OF assms(3)] non_ascii_not_joiner[OF assms(3)]
      by (simp add: non_alnum_def)
  qed
  ultimately show ?thesis by (simp add: split_shape)
qed

text \<open>
  Claim C10. Alphanumeric means exactly the ASCII letters and digits. Every other UTF-16
  code unit, in particular every non-ASCII one, counts as punctuation: around a core it is
  stripped into leading or trailing and the ORP offset is computed from the ASCII core
  alone (\<open>caf\<close> followed by U+00E9 has core \<open>caf\<close> and offset 1); between two cores it
  makes the pattern fail, and the fallback returns the whole token as core.
\<close>

theorem alnum_is_ascii_only:
  "(is_alnum c \<longleftrightarrow>
      c \<in> set (js ''ABCDEFGHIJKLMNOPQRSTUVWXYZabcdefghijklmnopqrstuvwxyz0123456789'')) \<and>
   (0x80 \<le> c \<longrightarrow> non_alnum c) \<and>
   (core_form w \<and> (\<forall>x \<in> set l. 0x80 \<le> x) \<and> (\<forall>x \<in> set t. 0x80 \<le> x) \<longrightarrow>
      splitLeadingCoreTrailing (l @ w @ t) = \<lparr>leading = l, core = w, trailing = t\<rparr> \<and>
      processToken (l @ w @ t)
        = \<lparr>word = l @ w @ t, orpIndex = int (length l) + calculateOrpCore w\<rparr>) \<and>
   (core_form w1 \<and> core_form w2 \<and> 0x80 \<le> c \<longrightarrow>
      splitLeadingCoreTrailing (w1 @ [c] @ w2)
        = \<lparr>leading = [], core = w1 @ [c] @ w2, trailing = []\<rparr> \<and>
      processToken (w1 @ [c] @ w2)
        = \<lparr>word = w1 @ [c] @ w2, orpIndex = calculateOrpCore (w1 @ [c] @ w2)\<rparr>) \<and>
   splitLeadingCoreTrailing (js ''caf'' @ [0xE9])
     = \<lparr>leading = [], core = js ''caf'', trailing = [0xE9]\<rparr> \<and>
   processToken (js ''caf'' @ [0xE9]) = \<lparr>word = js ''caf'' @ [0xE9], orpIndex = 1\<rparr>"
proof -
  have a: "core_form w \<and> (\<forall>x \<in> set l. 0x80 \<le> x) \<and> (\<forall>x \<in> set t. 0x80 \<le> x) \<longrightarrow>
      splitLeadingCoreTrailing (l @ w @ t) = \<lparr>leading = l, core = w, trailing = t\<rparr> \<and>
      processToken (l @ w @ t)
        = \<lparr>word = l @ w @ t, orpIndex = int (length l) + calculateOrpCore w\<rparr>"
    using split_non_ascii_affixes[of w l t]
      processToken_of_split[of "l @ w @ t" l w t] by blast
  have b: "core_form w1 \<and> core_form w2 \<and> 0x80 \<le> c \<longrightarrow>
      splitLeadingCoreTrailing (w1 @ [c] @ w2)
        = \<lparr>leading = [], core = w1 @ [c] @ w2, trailing = []\<rparr> \<and>
      processToken (w1 @ [c] @ w2)
        = \<lparr>word = w1 @ [c] @ w2, orpIndex = calculateOrpCore (w1 @ [c] @ w2)\<rparr>"
    using split_non_ascii_inside[of w1 w2 c]
      processToken_of_split[of "w1 @ [c] @ w2" "[]" "w1 @ [c] @ w2" "[]"] by auto
  have c1: "splitLeadingCoreTrailing (js ''caf'' @ [0xE9])
     = \<lparr>leading = [], core = js ''caf'', trailing = [0xE9]\<rparr>"
    by code_simp
  have c2: "processToken (js ''caf'' @ [0xE9]) = \<lparr>word = js ''caf'' @ [0xE9], orpIndex = 1\<rparr>"
    by code_simp
  show ?thesis using is_alnum_list[of c] non_ascii_non_alnum[of c] a b c1 c2 by blast
qed

theorem alnum_is_ascii_only_witness:
  "is_alnum 0x7A \<and> non_alnum 0xFC \<and>
   core_form (js ''na'') \<and> core_form (js ''ve'') \<and> (0x80::jschar) \<le> 0xEF \<and>
   splitLeadingCoreTrailing (js ''na'' @ [0xEF] @ js ''ve'')
     = \<lparr>leading = [], core = js ''na'' @ [0xEF] @ js ''ve'', trailing = []\<rparr> \<and>
   core_form (js ''uber'') \<and> list_all ((\<le>) 0x80) [0xFC::jschar] \<and>
   splitLeadingCoreTrailing ([0xFC] @ js ''uber'' @ [])
     = \<lparr>leading = [0xFC], core = js ''uber'', trailing = []\<rparr> \<and>
   orpIndex (processToken ([0xFC] @ js ''uber'' @ [])) = 1 + calculateOrpCore (js ''uber'')"
proof -
  have m: "(0x7A::jschar) \<in> set (js ''ABCDEFGHIJKLMNOPQRSTUVWXYZabcdefghijklmnopqrstuvwxyz0123456789'')"
    by code_simp
  have cf: "core_form (js ''na'')" "core_form (js ''ve'')" "core_form (js ''uber'')"
    by code_simp+
  have ge: "(0x80::jschar) \<le> 0xEF" "(0x80::jschar) \<le> 0xFC" by simp_all
  have la: "list_all ((\<le>) 0x80) [0xFC::jschar]" by simp
  have e: "\<forall>x \<in> set [0xFC::jschar]. 0x80 \<le> x" "\<forall>x \<in> set ([]::jschar list). 0x80 \<le> x"
    by simp_all
  from alnum_is_ascii_only[of "0x7A" "[]" "[]" "[]" "[]" "[]"] m
  have 1: "is_alnum 0x7A" by blast
  from alnum_is_ascii_only[of "0xFC" "[]" "[]" "[]" "[]" "[]"] ge(2)
  have 2: "non_alnum 0xFC" by blast
  from alnum_is_ascii_only[of "0xEF" "[]" "[]" "[]" "js ''na''" "js ''ve''"] cf(1,2) ge(1)
  have 3: "splitLeadingCoreTrailing (js ''na'' @ [0xEF] @ js ''ve'')
     = \<lparr>leading = [], core = js ''na'' @ [0xEF] @ js ''ve'', trailing = []\<rparr>"
    by blast
  from alnum_is_ascii_only[of "0xEF" "js ''uber''" "[0xFC]" "[]" "[]" "[]"] cf(3) e
  have 4: "splitLeadingCoreTrailing ([0xFC] @ js ''uber'' @ [])
     = \<lparr>leading = [0xFC], core = js ''uber'', trailing = []\<rparr>"
    and 5: "processToken ([0xFC] @ js ''uber'' @ [])
        = \<lparr>word = [0xFC] @ js ''uber'' @ [], orpIndex = int (length [0xFC::jschar]) + calculateOrpCore (js ''uber'')\<rparr>"
    by blast+
  have 6: "orpIndex (processToken ([0xFC] @ js ''uber'' @ [])) = 1 + calculateOrpCore (js ''uber'')"
    unfolding 5 by simp
  show ?thesis using 1 2 cf ge(1) 3 la 4 6 by blast
qed

subsection \<open>The normalizers\<close>

lemma collapse_runs_Nil: "collapse_runs P k rep [] = []"
  by (subst collapse_runs.simps) simp

lemma collapse_runs_skip: "\<not> P c \<Longrightarrow> collapse_runs P k rep (c # cs) = c # collapse_runs P k rep cs"
  by (subst collapse_runs.simps) simp

lemma collapse_runs_run:
  "P c \<Longrightarrow> collapse_runs P k rep (c # cs) =
     (if k \<le> length (takeWhile P (c # cs)) then rep else takeWhile P (c # cs))
       @ collapse_runs P k rep (dropWhile P cs)"
  by (subst collapse_runs.simps) simp

lemma collapse_runs_short:
  "length (takeWhile P s) < k \<Longrightarrow>
   collapse_runs P k rep s = takeWhile P s @ collapse_runs P k rep (dropWhile P s)"
proof (cases s)
  case Nil
  then show ?thesis by (simp add: collapse_runs_Nil)
next
  case (Cons c cs)
  assume "length (takeWhile P s) < k"
  then show ?thesis unfolding Cons
    by (cases "P c") (simp_all add: collapse_runs_run del: takeWhile.simps, simp)
qed

lemma replaceAll_skip:
  "rmatch re (c # cs) = [] \<Longrightarrow> replaceAll re rep (c # cs) = c # replaceAll re rep cs"
  by (subst replaceAll.simps) simp

lemma replaceAll_take:
  "rmatch re s = r # rs \<Longrightarrow> length r < length s \<Longrightarrow>
   replaceAll re rep s = rep @ replaceAll re rep r"
  by (subst replaceAll.simps) simp

lemma replaceAll_collapse_runs:
  assumes "0 < k"
  shows "replaceAll (AtLeast k (Cls P)) rep s = collapse_runs P k rep s"
proof (induction "length s" arbitrary: s rule: less_induct)
  case less
  show ?case
  proof (cases s)
    case Nil
    then show ?thesis using assms
      by (simp add: replaceAll_Nil rmatch_AtLeast_Nil collapse_runs_Nil)
  next
    case (Cons c cs)
    have ih_cs: "replaceAll (AtLeast k (Cls P)) rep cs = collapse_runs P k rep cs"
      using less[of cs] Cons by simp
    show ?thesis
    proof (cases "k \<le> length (takeWhile P s)")
      case True
      then have pc: "P c" using assms Cons by (auto split: if_splits)
      from rmatch_AtLeast_long[OF True] obtain rs
        where r: "rmatch (AtLeast k (Cls P)) s = dropWhile P cs # rs" using pc Cons by auto
      have l: "length (dropWhile P cs) < length s"
        using length_dropWhile_le[of P cs] Cons by simp
      have "replaceAll (AtLeast k (Cls P)) rep s
              = rep @ replaceAll (AtLeast k (Cls P)) rep (dropWhile P cs)"
        using r l by (rule replaceAll_take)
      also have "\<dots> = rep @ collapse_runs P k rep (dropWhile P cs)"
        using less[of "dropWhile P cs"] l by simp
      also have "\<dots> = collapse_runs P k rep s"
        using True pc unfolding Cons by (simp add: collapse_runs_run del: takeWhile.simps)
      finally show ?thesis .
    next
      case False
      then have short: "length (takeWhile P s) < k" by simp
      then have "rmatch (AtLeast k (Cls P)) s = []" by (rule rmatch_AtLeast_short)
      then have "replaceAll (AtLeast k (Cls P)) rep s = c # collapse_runs P k rep cs"
        unfolding Cons using ih_cs by (simp add: replaceAll_skip)
      also have "\<dots> = collapse_runs P k rep s"
      proof (cases "P c")
        case True
        with short Cons have "length (takeWhile P cs) < k" by simp
        from collapse_runs_short[OF this]
        have "c # collapse_runs P k rep cs
                = (c # takeWhile P cs) @ collapse_runs P k rep (dropWhile P cs)" by simp
        also have "\<dots> = takeWhile P s @ collapse_runs P k rep (dropWhile P s)"
          using True Cons by simp
        also have "\<dots> = collapse_runs P k rep s" using collapse_runs_short[OF short] by simp
        finally show ?thesis .
      next
        case False
        then show ?thesis unfolding Cons by (simp add: collapse_runs_skip)
      qed
      finally show ?thesis .
    qed
  qed
qed

lemma rmatch_Chr: "rmatch (Chr c) s = (case s of [] \<Rightarrow> [] | x # xs \<Rightarrow> if x = c then [xs] else [])"
  by (simp add: Chr_def)

lemma replaceAll_CRLF_simps:
  "replaceAll (Seq (Chr CR) (Chr LF)) [LF] [] = []"
  "replaceAll (Seq (Chr CR) (Chr LF)) [LF] [a] = [a]"
  "replaceAll (Seq (Chr CR) (Chr LF)) [LF] (a # b # r) =
     (if a = CR \<and> b = LF then LF # replaceAll (Seq (Chr CR) (Chr LF)) [LF] r
      else a # replaceAll (Seq (Chr CR) (Chr LF)) [LF] (b # r))"
proof -
  show e: "replaceAll (Seq (Chr CR) (Chr LF)) [LF] [] = []"
    by (subst replaceAll.simps) (simp add: rmatch_Chr)
  show "replaceAll (Seq (Chr CR) (Chr LF)) [LF] [a] = [a]"
    by (subst replaceAll.simps) (simp add: rmatch_Chr e)
  show "replaceAll (Seq (Chr CR) (Chr LF)) [LF] (a # b # r) =
     (if a = CR \<and> b = LF then LF # replaceAll (Seq (Chr CR) (Chr LF)) [LF] r
      else a # replaceAll (Seq (Chr CR) (Chr LF)) [LF] (b # r))"
    by (subst replaceAll.simps) (simp add: rmatch_Chr)
qed

lemma replaceAll_CR_simps:
  "replaceAll (Chr CR) [LF] [] = []"
  "replaceAll (Chr CR) [LF] (a # r) = (if a = CR then LF else a) # replaceAll (Chr CR) [LF] r"
  by (subst replaceAll.simps, simp add: rmatch_Chr)+

lemma LF_not_CR: "LF \<noteq> CR"
  by (simp add: LF_def CR_def)

lemma replaceAll_unify_line_endings:
  "replaceAll (Chr CR) [LF] (replaceAll (Seq (Chr CR) (Chr LF)) [LF] s) = unify_line_endings s"
  by (induction s rule: unify_line_endings.induct)
    (simp_all add: replaceAll_CRLF_simps replaceAll_CR_simps LF_not_CR)

lemma Chr_LF: "Chr LF = Cls is_newline"
proof -
  have "(\<lambda>x. x = LF) = is_newline" by (auto simp: is_newline_def)
  then show ?thesis by (simp add: Chr_def)
qed

lemma normalizePreserveParagraphs_steps:
  "normalizePreserveParagraphs s =
     trim (collapse_runs is_newline 3 [LF, LF]
       (collapse_runs is_blank 1 [SP] (unify_line_endings s)))"
proof -
  have a: "replaceAll (Plus (Cls is_blank)) [SP] x = collapse_runs is_blank 1 [SP] x" for x
    unfolding Plus_AtLeast by (rule replaceAll_collapse_runs) simp
  have b: "replaceAll (AtLeast 3 (Chr LF)) [LF, LF] x = collapse_runs is_newline 3 [LF, LF] x" for x
    unfolding Chr_LF by (rule replaceAll_collapse_runs) simp
  show ?thesis
    unfolding normalizePreserveParagraphs_def Let_def replaceAll_unify_line_endings a b ..
qed

lemma normalizeForWords_steps:
  "normalizeForWords s = trim (collapse_runs is_space 1 [SP] s)"
  unfolding normalizeForWords_def Plus_AtLeast
  by (simp add: replaceAll_collapse_runs del: AtLeast.simps)

lemma last_dropWhile: "dropWhile P xs \<noteq> [] \<Longrightarrow> last (dropWhile P xs) = last xs"
  by (metis last_appendR takeWhile_dropWhile_id)

lemma collapse_runs_append:
  assumes "a = [] \<or> b = [] \<or> \<not> P (last a) \<or> \<not> P (hd b)"
  shows "collapse_runs P k rep (a @ b) = collapse_runs P k rep a @ collapse_runs P k rep b"
  using assms
proof (induction "length a" arbitrary: a rule: less_induct)
  case less
  show ?case
  proof (cases a)
    case Nil
    then show ?thesis by (simp add: collapse_runs_Nil)
  next
    case (Cons c cs)
    show ?thesis
    proof (cases "b = []")
      case True
      then show ?thesis by (simp add: collapse_runs_Nil)
    next
      case bne: False
      have bound: "\<not> P (last a) \<or> \<not> P (hd b)" using less.prems Cons bne by simp
      show ?thesis
      proof (cases "P c")
        case False
        have "cs = [] \<or> b = [] \<or> \<not> P (last cs) \<or> \<not> P (hd b)"
          using bound Cons by (cases "cs = []") simp_all
        from less.hyps[OF _ this] Cons
        have "collapse_runs P k rep (cs @ b) = collapse_runs P k rep cs @ collapse_runs P k rep b"
          by simp
        then show ?thesis using False Cons by (simp add: collapse_runs_skip)
      next
        case pc: True
        show ?thesis
        proof (cases "\<forall>x \<in> set a. P x")
          case True
          then have "P (last a)" using Cons by (metis last_in_set list.distinct(1))
          then have nb: "\<not> P (hd b)" using bound by simp
          obtain y ys where b: "b = y # ys" using bne by (cases b) auto
          have ny: "\<not> P y" using nb b by simp
          have ta: "takeWhile P a = a" "dropWhile P cs = []" using True Cons by simp_all
          have tab: "takeWhile P (a @ b) = a" using True ny b by (simp add: takeWhile_append2)
          have dab: "dropWhile P (cs @ b) = b" using True Cons ny b by (simp add: dropWhile_append2)
          have "collapse_runs P k rep (a @ b)
                  = (if k \<le> length a then rep else a) @ collapse_runs P k rep b"
            using collapse_runs_run[where P=P and c=c and k=k and rep=rep and cs="cs @ b", OF pc] tab dab Cons by simp
          moreover have "collapse_runs P k rep a = (if k \<le> length a then rep else a)"
            using collapse_runs_run[where P=P and c=c and k=k and rep=rep and cs=cs, OF pc] ta Cons by (simp add: collapse_runs_Nil)
          ultimately show ?thesis by simp
        next
          case False
          then obtain x where x: "x \<in> set cs" "\<not> P x" using Cons pc by auto
          have x': "x \<in> set a" using x(1) Cons by simp
          have tab: "takeWhile P (a @ b) = takeWhile P a"
            using takeWhile_append1[of x a P b] x' x(2) by simp
          have dab: "dropWhile P (cs @ b) = dropWhile P cs @ b"
            using dropWhile_append1[of x cs P b] x by simp
          have dne: "dropWhile P cs \<noteq> []" using x by (auto simp: dropWhile_eq_Nil_conv)
          then have "last (dropWhile P cs) = last cs" by (rule last_dropWhile)
          moreover have "cs \<noteq> []" using x(1) by auto
          ultimately have "last (dropWhile P cs) = last a" using Cons by simp
          then have bd: "dropWhile P cs = [] \<or> b = [] \<or> \<not> P (last (dropWhile P cs)) \<or> \<not> P (hd b)"
            using bound by simp
          have len: "length (dropWhile P cs) < length a"
            using length_dropWhile_le[of P cs] Cons by simp
          have ih: "collapse_runs P k rep (dropWhile P cs @ b)
                  = collapse_runs P k rep (dropWhile P cs) @ collapse_runs P k rep b"
            using less.hyps[OF len bd] .
          have "collapse_runs P k rep (a @ b)
                  = (if k \<le> length (takeWhile P a) then rep else takeWhile P a)
                      @ collapse_runs P k rep (dropWhile P cs @ b)"
            using collapse_runs_run[where P=P and c=c and k=k and rep=rep and cs="cs @ b", OF pc] tab dab Cons by simp
          moreover have "collapse_runs P k rep a
                  = (if k \<le> length (takeWhile P a) then rep else takeWhile P a)
                      @ collapse_runs P k rep (dropWhile P cs)"
            using collapse_runs_run[where P=P and c=c and k=k and rep=rep and cs=cs, OF pc] Cons by simp
          ultimately show ?thesis using ih by simp
        qed
      qed
    qed
  qed
qed

lemma collapse_runs_none: "\<forall>x \<in> set s. \<not> P x \<Longrightarrow> collapse_runs P k rep s = s"
  by (induction s) (simp_all add: collapse_runs_Nil collapse_runs_skip)

lemma collapse_runs_all:
  assumes "s \<noteq> []" "\<forall>x \<in> set s. P x"
  shows "collapse_runs P k rep s = (if k \<le> length s then rep else s)"
proof -
  obtain c cs where s: "s = c # cs" using assms(1) by (cases s) auto
  have pc: "P c" using assms(2) s by simp
  have t: "takeWhile P (c # cs) = c # cs" and d: "dropWhile P cs = []"
    using assms(2) s by simp_all
  have "collapse_runs P k rep (c # cs) =
     (if k \<le> length (takeWhile P (c # cs)) then rep else takeWhile P (c # cs))
       @ collapse_runs P k rep (dropWhile P cs)"
    using pc by (rule collapse_runs_run)
  also have "\<dots> = (if k \<le> length (c # cs) then rep else c # cs)"
    unfolding t d by (simp add: collapse_runs_Nil)
  finally show ?thesis unfolding s .
qed

lemma collapse_runs_lone:
  assumes "\<And>c. P c \<Longrightarrow> is_space c"
  shows "lone_spaces p \<Longrightarrow> collapse_runs P 1 [SP] p = p"
proof (induction p rule: lone_spaces.induct)
  case 1
  show ?case by (simp add: collapse_runs_Nil)
next
  case (2 a)
  show ?case
  proof (cases "P a")
    case True
    then have "a = SP" using "2.prems" assms by simp
    then show ?thesis using True collapse_runs_run[where P=P and c=a and k=1 and rep="[SP]" and cs="[]", OF True]
      by (simp add: collapse_runs_Nil)
  next
    case False
    then show ?thesis by (simp add: collapse_runs_skip collapse_runs_Nil)
  qed
next
  case (3 a b r)
  have ih: "collapse_runs P 1 [SP] (b # r) = b # r" using 3 by simp
  show ?case
  proof (cases "P a")
    case True
    then have a: "a = SP" "\<not> is_space b" using "3.prems" assms by simp_all
    then have nb: "\<not> P b" using assms by blast
    show ?thesis using collapse_runs_run[where P=P and c=a and k=1 and rep="[SP]" and cs="b # r", OF True] nb a(1) ih True by simp
  next
    case False
    then show ?thesis using ih by (simp add: collapse_runs_skip)
  qed
qed

lemma lone_spaces_chars: "lone_spaces p \<Longrightarrow> x \<in> set p \<Longrightarrow> is_space x \<Longrightarrow> x = SP"
  by (induction p rule: lone_spaces.induct) auto

lemma trim_id:
  assumes "s \<noteq> []" "\<not> is_space (hd s)" "\<not> is_space (last s)"
  shows "trim s = s"
proof -
  have d: "dropWhile is_space s = s" using assms(1,2) by (cases s) simp_all
  have "dropWhile is_space (rev s) = rev s" using assms(1,3) by (cases s rule: rev_cases) simp_all
  then show ?thesis by (simp add: trim_def d)
qed

lemma unify_Cons_other: "x \<noteq> CR \<Longrightarrow> unify_line_endings (x # s) = x # unify_line_endings s"
  by (cases s) simp_all

lemma unify_append_no_CR: "CR \<notin> set a \<Longrightarrow> unify_line_endings (a @ b) = a @ unify_line_endings b"
proof (induction a)
  case Nil
  show ?case by simp
next
  case (Cons x a)
  then have "x \<noteq> CR" "CR \<notin> set a" by auto
  then show ?case using Cons.IH by (simp add: unify_Cons_other)
qed

lemma unify_no_CR: "CR \<notin> set a \<Longrightarrow> unify_line_endings a = a"
  using unify_append_no_CR[of a "[]"] by simp

lemma unify_CR_LF: "unify_line_endings (CR # LF # s) = LF # unify_line_endings s"
  by simp

lemma unify_CR_other: "s = [] \<or> hd s \<noteq> LF \<Longrightarrow> unify_line_endings (CR # s) = LF # unify_line_endings s"
  by (cases s) auto

lemma unify_eols:
  assumes "eol \<in> {[LF], [CR, LF], [CR]}" "b = [] \<or> hd b \<noteq> LF"
  shows "unify_line_endings (concat (replicate n eol) @ b) = replicate n LF @ unify_line_endings b"
proof (induction n)
  case 0
  show ?case by simp
next
  case (Suc n)
  let ?rest = "concat (replicate n eol) @ b"
  consider "eol = [LF]" | "eol = [CR, LF]" | "eol = [CR]" using assms(1) by auto
  then show ?case
  proof cases
    case 1
    then show ?thesis using Suc by (simp add: unify_Cons_other LF_not_CR)
  next
    case 2
    then show ?thesis using Suc by simp
  next
    case 3
    have "?rest = [] \<or> hd ?rest \<noteq> LF"
      using assms(2) 3 by (cases n) (auto simp: LF_not_CR[symmetric])
    from unify_CR_other[OF this] show ?thesis using Suc 3 by simp
  qed
qed

lemma is_space_consts: "is_space LF" "is_space CR" "is_space TAB"
  by (simp_all add: is_space_def LF_def CR_def TAB_def)

lemma SP_distinct: "LF \<noteq> SP" "CR \<noteq> SP" "TAB \<noteq> SP"
  by (simp_all add: LF_def CR_def TAB_def SP_def)

lemma is_blank_is_space: "is_blank c \<Longrightarrow> is_space c"
  using is_space_SP is_space_consts(3) by (auto simp: is_blank_def)

lemma is_newline_is_space: "is_newline c \<Longrightarrow> is_space c"
  using is_space_consts(1) by (simp add: is_newline_def)

lemma single_spaced_no_breaks:
  assumes "single_spaced p"
  shows "CR \<notin> set p" "LF \<notin> set p" "TAB \<notin> set p"
  using assms lone_spaces_chars[of p] is_space_consts SP_distinct
  unfolding single_spaced_def by blast+

lemma paragraphs_full_text:
  assumes p1: "single_spaced p1" and p2: "single_spaced p2"
    and n: "2 \<le> n" and eol: "eol \<in> {[LF], [CR, LF], [CR]}"
  shows "normalizePreserveParagraphs (p1 @ concat (replicate n eol) @ p2) = p1 @ [LF, LF] @ p2"
proof -
  let ?nl = "replicate n LF"
  have e1: "p1 \<noteq> []" "\<not> is_space (hd p1)" "\<not> is_space (last p1)" "lone_spaces p1"
    and e2: "p2 \<noteq> []" "\<not> is_space (hd p2)" "\<not> is_space (last p2)" "lone_spaces p2"
    using p1 p2 by (simp_all add: single_spaced_def)
  have hd2: "hd p2 \<noteq> LF" using e2(2) is_space_consts(1) by auto
  have u: "unify_line_endings (p1 @ concat (replicate n eol) @ p2) = p1 @ ?nl @ p2"
    using unify_append_no_CR[OF single_spaced_no_breaks(1)[OF p1]]
      unify_eols[OF eol, of p2 n] hd2 unify_no_CR[OF single_spaced_no_breaks(1)[OF p2]]
    by simp
  have nlne: "?nl \<noteq> []" using n by auto
  have b1: "collapse_runs is_blank 1 [SP] p1 = p1" "collapse_runs is_blank 1 [SP] p2 = p2"
    using collapse_runs_lone[of is_blank, OF is_blank_is_space] e1(4) e2(4) by simp_all
  have "\<forall>x \<in> set ?nl. \<not> is_blank x" using SP_distinct(1) by (auto simp: is_blank_def LF_def TAB_def)
  then have b2: "collapse_runs is_blank 1 [SP] ?nl = ?nl" by (rule collapse_runs_none)
  have "collapse_runs is_blank 1 [SP] (p1 @ (?nl @ p2))
          = collapse_runs is_blank 1 [SP] p1 @ collapse_runs is_blank 1 [SP] (?nl @ p2)"
    using e1(3) is_blank_is_space by (intro collapse_runs_append) blast
  moreover have "collapse_runs is_blank 1 [SP] (?nl @ p2)
          = collapse_runs is_blank 1 [SP] ?nl @ collapse_runs is_blank 1 [SP] p2"
    using e2(2) is_blank_is_space by (intro collapse_runs_append) blast
  ultimately have h: "collapse_runs is_blank 1 [SP] (p1 @ ?nl @ p2) = p1 @ ?nl @ p2"
    using b1 b2 by simp
  have "\<forall>x \<in> set p1. \<not> is_newline x" "\<forall>x \<in> set p2. \<not> is_newline x"
    using single_spaced_no_breaks(2)[OF p1] single_spaced_no_breaks(2)[OF p2]
    by (auto simp: is_newline_def)
  then have c1: "collapse_runs is_newline 3 [LF, LF] p1 = p1"
    "collapse_runs is_newline 3 [LF, LF] p2 = p2"
    by (simp_all add: collapse_runs_none)
  have "collapse_runs is_newline 3 [LF, LF] ?nl = (if 3 \<le> length ?nl then [LF, LF] else ?nl)"
    using nlne by (intro collapse_runs_all) (simp_all add: is_newline_def)
  moreover have "n = 2 \<Longrightarrow> ?nl = [LF, LF]" by (simp add: numeral_2_eq_2)
  ultimately have c2: "collapse_runs is_newline 3 [LF, LF] ?nl = [LF, LF]"
    using n by (cases "3 \<le> n") auto
  have "collapse_runs is_newline 3 [LF, LF] (p1 @ (?nl @ p2))
          = collapse_runs is_newline 3 [LF, LF] p1 @ collapse_runs is_newline 3 [LF, LF] (?nl @ p2)"
    using e1(3) is_newline_is_space by (intro collapse_runs_append) blast
  moreover have "collapse_runs is_newline 3 [LF, LF] (?nl @ p2)
          = collapse_runs is_newline 3 [LF, LF] ?nl @ collapse_runs is_newline 3 [LF, LF] p2"
    using e2(2) is_newline_is_space by (intro collapse_runs_append) blast
  ultimately have v: "collapse_runs is_newline 3 [LF, LF] (p1 @ ?nl @ p2) = p1 @ [LF, LF] @ p2"
    using c1 c2 by simp
  have "trim (p1 @ [LF, LF] @ p2) = p1 @ [LF, LF] @ p2"
    using e1(1,2) e2(1,3) by (intro trim_id) simp_all
  then show ?thesis unfolding normalizePreserveParagraphs_steps u h v .
qed

lemma paragraphs_words:
  assumes p1: "single_spaced p1" and p2: "single_spaced p2"
    and n: "1 \<le> n" and eol: "eol \<in> {[LF], [CR, LF], [CR]}"
  shows "normalizeForWords (p1 @ concat (replicate n eol) @ p2) = p1 @ [SP] @ p2"
proof -
  let ?sep = "concat (replicate n eol)"
  have e1: "p1 \<noteq> []" "\<not> is_space (hd p1)" "\<not> is_space (last p1)" "lone_spaces p1"
    and e2: "p2 \<noteq> []" "\<not> is_space (hd p2)" "\<not> is_space (last p2)" "lone_spaces p2"
    using p1 p2 by (simp_all add: single_spaced_def)
  have sne: "?sep \<noteq> []" using n eol by (cases n) auto
  have sall: "\<forall>x \<in> set ?sep. is_space x" using eol is_space_consts by auto
  have b1: "collapse_runs is_space 1 [SP] p1 = p1" "collapse_runs is_space 1 [SP] p2 = p2"
    using collapse_runs_lone[of is_space] e1(4) e2(4) by simp_all
  have "collapse_runs is_space 1 [SP] ?sep = (if 1 \<le> length ?sep then [SP] else ?sep)"
    using sne sall by (rule collapse_runs_all)
  then have b2: "collapse_runs is_space 1 [SP] ?sep = [SP]"
    using sne by (simp add: Suc_le_eq)
  have "collapse_runs is_space 1 [SP] (p1 @ (?sep @ p2))
          = collapse_runs is_space 1 [SP] p1 @ collapse_runs is_space 1 [SP] (?sep @ p2)"
    using e1(3) by (intro collapse_runs_append) blast
  moreover have "collapse_runs is_space 1 [SP] (?sep @ p2)
          = collapse_runs is_space 1 [SP] ?sep @ collapse_runs is_space 1 [SP] p2"
    using e2(2) by (intro collapse_runs_append) blast
  ultimately have h: "collapse_runs is_space 1 [SP] (p1 @ ?sep @ p2) = p1 @ [SP] @ p2"
    using b1 b2 by simp
  have "trim (p1 @ [SP] @ p2) = p1 @ [SP] @ p2"
    using e1(1,2) e2(1,3) by (intro trim_id) simp_all
  then show ?thesis unfolding normalizeForWords_steps h .
qed

lemma lone_spaces_Cons:
  "lone_spaces (a # s) \<longleftrightarrow>
     (is_space a \<longrightarrow> a = SP \<and> (s = [] \<or> \<not> is_space (hd s))) \<and> lone_spaces s"
  by (cases s) auto

lemma lone_spaces_collapse: "lone_spaces (collapse_runs is_space 1 [SP] s)"
proof (induction "length s" arbitrary: s rule: less_induct)
  case less
  show ?case
  proof (cases s)
    case Nil
    then show ?thesis by (simp add: collapse_runs_Nil)
  next
    case (Cons c cs)
    show ?thesis
    proof (cases "is_space c")
      case False
      have "lone_spaces (collapse_runs is_space 1 [SP] cs)" using less[of cs] Cons by simp
      then show ?thesis using False Cons by (simp add: collapse_runs_skip lone_spaces_Cons)
    next
      case True
      let ?d = "dropWhile is_space cs"
      have len: "length ?d < length s" using length_dropWhile_le[of is_space cs] Cons by simp
      have ih: "lone_spaces (collapse_runs is_space 1 [SP] ?d)" using less[OF len] .
      have "collapse_runs is_space 1 [SP] (c # cs)
              = (if 1 \<le> length (takeWhile is_space (c # cs)) then [SP] else takeWhile is_space (c # cs))
                  @ collapse_runs is_space 1 [SP] ?d"
        using True by (rule collapse_runs_run)
      then have eq: "collapse_runs is_space 1 [SP] s = SP # collapse_runs is_space 1 [SP] ?d"
        using True Cons by simp
      have "collapse_runs is_space 1 [SP] ?d = [] \<or> \<not> is_space (hd (collapse_runs is_space 1 [SP] ?d))"
      proof (cases ?d)
        case Nil
        show ?thesis unfolding Nil by (simp add: collapse_runs_Nil)
      next
        case (Cons x xs)
        then have "\<not> is_space x" using hd_dropWhile[of is_space cs] by simp
        then show ?thesis unfolding Cons by (simp add: collapse_runs_skip)
      qed
      then show ?thesis unfolding eq using ih by (simp add: lone_spaces_Cons)
    qed
  qed
qed

lemma lone_spaces_dropWhile: "lone_spaces s \<Longrightarrow> lone_spaces (dropWhile P s)"
  by (induction s) (simp_all add: lone_spaces_Cons)

lemma lone_spaces_prefix: "lone_spaces (x @ y) \<Longrightarrow> lone_spaces x"
proof (induction x)
  case Nil
  show ?case by simp
next
  case (Cons a x)
  then show ?case by (cases "x = []") (auto simp: lone_spaces_Cons)
qed

lemma lone_spaces_trim: "lone_spaces s \<Longrightarrow> lone_spaces (trim s)"
proof -
  assume "lone_spaces s"
  then have d: "lone_spaces (dropWhile is_space s)" by (rule lone_spaces_dropWhile)
  let ?d = "dropWhile is_space s"
  have "rev ?d = takeWhile is_space (rev ?d) @ dropWhile is_space (rev ?d)" by simp
  then have "?d = rev (dropWhile is_space (rev ?d)) @ rev (takeWhile is_space (rev ?d))"
    by (metis rev_append rev_rev_ident)
  then have "?d = trim s @ rev (takeWhile is_space (rev ?d))" by (simp add: trim_def)
  then show ?thesis using d lone_spaces_prefix by metis
qed

lemma trim_ends:
  assumes "trim s \<noteq> []"
  shows "\<not> is_space (hd (trim s))" and "\<not> is_space (last (trim s))"
proof -
  let ?d = "dropWhile is_space s"
  let ?e = "dropWhile is_space (rev ?d)"
  have t: "trim s = rev ?e" by (simp add: trim_def)
  have ene: "?e \<noteq> []" using assms t by simp
  have dne: "?d \<noteq> []"
  proof
    assume a: "?d = []"
    have "?e = []" unfolding a by simp
    with ene show False by simp
  qed
  have "\<not> is_space (hd ?e)" using ene by (rule hd_dropWhile)
  then show "\<not> is_space (last (trim s))" using ene by (simp add: t last_rev)
  have "last ?e = last (rev ?d)" using ene by (rule last_dropWhile)
  then have "hd (trim s) = hd ?d" using ene dne by (simp add: t hd_rev last_rev)
  moreover have "\<not> is_space (hd ?d)" using dne by (rule hd_dropWhile)
  ultimately show "\<not> is_space (hd (trim s))" by simp
qed

lemma normalizeForWords_single_spaced:
  "normalizeForWords s \<noteq> [] \<Longrightarrow> single_spaced (normalizeForWords s)"
  unfolding single_spaced_def
  using trim_ends[of "collapse_runs is_space 1 [SP] s"]
    lone_spaces_trim[OF lone_spaces_collapse[of s]]
  by (simp add: normalizeForWords_steps)

lemma unify_append:
  "xs = [] \<or> ys = [] \<or> last xs \<noteq> CR \<or> hd ys \<noteq> LF \<Longrightarrow>
   unify_line_endings (xs @ ys) = unify_line_endings xs @ unify_line_endings ys"
proof (induction xs rule: unify_line_endings.induct)
  case 1
  show ?case by simp
next
  case (2 a)
  show ?case
  proof (cases "a = CR")
    case True
    then have "ys = [] \<or> hd ys \<noteq> LF" using "2.prems" by auto
    from unify_CR_other[OF this] True show ?thesis by simp
  next
    case False
    then show ?thesis by (simp add: unify_Cons_other)
  qed
next
  case (3 a b r)
  have br: "b # r = [] \<or> ys = [] \<or> last (b # r) \<noteq> CR \<or> hd ys \<noteq> LF"
    using "3.prems" by simp
  have rr: "r = [] \<or> ys = [] \<or> last r \<noteq> CR \<or> hd ys \<noteq> LF"
    using "3.prems" by (cases "r = []") simp_all
  show ?case
  proof (cases "a = CR \<and> b = LF")
    case True
    then show ?thesis using "3.IH"(1)[OF True rr] by simp
  next
    case False
    show ?thesis
    proof (cases "a = CR")
      case True
      then show ?thesis using "3.IH"(2)[OF False True br] False by simp
    next
      case na: False
      then show ?thesis using "3.IH"(3)[OF False na br] by simp
    qed
  qed
qed

lemma unify_eols_only:
  "\<forall>x \<in> set s. is_eol x \<Longrightarrow> \<forall>x \<in> set (unify_line_endings s). x = LF"
proof (induction s rule: unify_line_endings.induct)
  case 1
  show ?case by simp
next
  case (2 a)
  then have "a = CR \<or> a = LF" by (simp add: is_eol_def)
  then show ?case by (cases "a = CR") simp_all
next
  case (3 a b r)
  have a: "a = CR \<or> a = LF" and br: "\<forall>x \<in> set (b # r). is_eol x" and rr: "\<forall>x \<in> set r. is_eol x"
    using "3.prems" by (simp_all add: is_eol_def)
  show ?case
  proof (cases "a = CR \<and> b = LF")
    case True
    have "\<forall>x \<in> set (unify_line_endings r). x = LF" using "3.IH"(1)[OF True rr] .
    then show ?thesis using True by simp
  next
    case False
    show ?thesis
    proof (cases "a = CR")
      case True
      have "\<forall>x \<in> set (unify_line_endings (b # r)). x = LF" using "3.IH"(2)[OF False True br] .
      then show ?thesis using True False by simp
    next
      case na: False
      then have al: "a = LF" using a by simp
      have "\<forall>x \<in> set (unify_line_endings (b # r)). x = LF" using "3.IH"(3)[OF False na br] .
      then show ?thesis using na al LF_not_CR by simp
    qed
  qed
qed

lemma unify_eols_replicate:
  assumes "\<forall>x \<in> set s. is_eol x"
  shows "unify_line_endings s = replicate (length (unify_line_endings s)) LF"
  using replicate_length_same[of "unify_line_endings s" LF] unify_eols_only[OF assms] by metis

lemma unify_keeps: "x \<in> set s \<Longrightarrow> x \<noteq> CR \<Longrightarrow> x \<in> set (unify_line_endings s)"
  by (induction s rule: unify_line_endings.induct) (auto simp: LF_not_CR)

lemma unify_hd: "s \<noteq> [] \<Longrightarrow> hd s \<noteq> CR \<Longrightarrow> unify_line_endings s \<noteq> [] \<and> hd (unify_line_endings s) = hd s"
  by (cases s) (simp_all add: unify_Cons_other)

lemma unify_last:
  assumes "s \<noteq> []" "\<not> is_eol (last s)"
  shows "unify_line_endings s \<noteq> [] \<and> last (unify_line_endings s) = last s"
proof -
  obtain xs c where s: "s = xs @ [c]" using assms(1) by (cases s rule: rev_cases) auto
  then have c: "c \<noteq> CR" "c \<noteq> LF" using assms(2) by (simp_all add: is_eol_def)
  have "unify_line_endings (xs @ [c]) = unify_line_endings xs @ unify_line_endings [c]"
    using c(2) by (intro unify_append) simp
  then show ?thesis using c(1) s by simp
qed

lemma collapse_runs_keeps: "x \<in> set s \<Longrightarrow> \<not> P x \<Longrightarrow> x \<in> set (collapse_runs P k rep s)"
proof (induction "length s" arbitrary: s rule: less_induct)
  case less
  from less.prems(1) obtain c cs where s: "s = c # cs" by (cases s) auto
  show ?case
  proof (cases "P c")
    case False
    show ?thesis
    proof (cases "x = c")
      case True
      then show ?thesis using False s by (simp add: collapse_runs_skip)
    next
      case nx: False
      then have "x \<in> set cs" using less.prems(1) s by simp
      then have "x \<in> set (collapse_runs P k rep cs)" using less.hyps[of cs] less.prems(2) s by simp
      then show ?thesis using False s by (simp add: collapse_runs_skip)
    qed
  next
    case True
    then have "x \<noteq> c" using less.prems(2) by auto
    then have "x \<in> set cs" using less.prems(1) s by simp
    moreover have "set cs = set (takeWhile P cs) \<union> set (dropWhile P cs)"
      by (metis set_append takeWhile_dropWhile_id)
    ultimately have "x \<in> set (dropWhile P cs)" using less.prems(2) by (auto dest: set_takeWhileD)
    moreover have "length (dropWhile P cs) < length s"
      using length_dropWhile_le[of P cs] s by simp
    ultimately have "x \<in> set (collapse_runs P k rep (dropWhile P cs))"
      using less.hyps less.prems(2) by blast
    then show ?thesis unfolding s collapse_runs_run[where P=P and c=c and cs=cs, OF True] by simp
  qed
qed

lemma collapse_runs_hd:
  assumes "s \<noteq> []" "rep \<noteq> []"
  shows "collapse_runs P k rep s \<noteq> [] \<and>
         (hd (collapse_runs P k rep s) = hd s \<or> hd (collapse_runs P k rep s) = hd rep)"
proof -
  obtain c cs where s: "s = c # cs" using assms(1) by (cases s) auto
  show ?thesis
  proof (cases "P c")
    case False
    then show ?thesis using s by (simp add: collapse_runs_skip)
  next
    case True
    have t: "takeWhile P (c # cs) = c # takeWhile P cs" using True by simp
    show ?thesis unfolding s collapse_runs_run[where P=P and c=c and cs=cs, OF True] t
      using assms(2) by auto
  qed
qed

lemma collapse_runs_hd_other:
  "s \<noteq> [] \<Longrightarrow> \<not> P (hd s) \<Longrightarrow>
   collapse_runs P k rep s \<noteq> [] \<and> hd (collapse_runs P k rep s) = hd s"
  by (cases s) (simp_all add: collapse_runs_skip)

lemma collapse_runs_last_other:
  assumes "s \<noteq> []" "\<not> P (last s)"
  shows "collapse_runs P k rep s \<noteq> [] \<and> last (collapse_runs P k rep s) = last s"
proof -
  obtain xs c where s: "s = xs @ [c]" using assms(1) by (cases s rule: rev_cases) auto
  then have c: "\<not> P c" using assms(2) by simp
  have "collapse_runs P k rep (xs @ [c]) = collapse_runs P k rep xs @ collapse_runs P k rep [c]"
    using c by (intro collapse_runs_append) simp
  then show ?thesis using c s by (simp add: collapse_runs_skip collapse_runs_Nil)
qed

lemma collapse_runs_last:
  assumes "rep \<noteq> []"
  shows "s \<noteq> [] \<Longrightarrow> collapse_runs P k rep s \<noteq> [] \<and>
         (last (collapse_runs P k rep s) = last s \<or> last (collapse_runs P k rep s) = last rep)"
proof (induction "length s" arbitrary: s rule: less_induct)
  case less
  from less.prems obtain c cs where s: "s = c # cs" by (cases s) auto
  show ?case
  proof (cases "P c")
    case False
    show ?thesis
    proof (cases "cs = []")
      case True
      then show ?thesis using False s by (simp add: collapse_runs_skip collapse_runs_Nil)
    next
      case ne: False
      from less.hyps[of cs] ne s
      have "collapse_runs P k rep cs \<noteq> [] \<and>
         (last (collapse_runs P k rep cs) = last cs \<or> last (collapse_runs P k rep cs) = last rep)"
        by simp
      then show ?thesis using False s ne by (simp add: collapse_runs_skip)
    qed
  next
    case True
    let ?d = "dropWhile P cs"
    let ?r = "if k \<le> length (takeWhile P (c # cs)) then rep else takeWhile P (c # cs)"
    have e: "collapse_runs P k rep s = ?r @ collapse_runs P k rep ?d"
      unfolding s using True by (rule collapse_runs_run)
    have rne: "?r \<noteq> []" using assms True by simp
    show ?thesis
    proof (cases "?d = []")
      case dn: True
      then have "\<forall>x \<in> set cs. P x" by (simp add: dropWhile_eq_Nil_conv)
      then have t: "takeWhile P (c # cs) = c # cs" using True by simp
      have "collapse_runs P k rep s = ?r" unfolding e dn by (simp add: collapse_runs_Nil)
      then show ?thesis using rne unfolding t s by auto
    next
      case dne: False
      have len: "length ?d < length s" using length_dropWhile_le[of P cs] s by simp
      from less.hyps[OF len dne]
      have ih: "collapse_runs P k rep ?d \<noteq> []"
        "last (collapse_runs P k rep ?d) = last ?d \<or> last (collapse_runs P k rep ?d) = last rep"
        by simp_all
      have "last ?d = last cs" using dne by (rule last_dropWhile)
      moreover have "cs \<noteq> []" using dne by auto
      ultimately have "last ?d = last s" using s by simp
      then show ?thesis unfolding e using ih by simp
    qed
  qed
qed

lemma mem_dropWhile: "x \<in> set s \<Longrightarrow> \<not> P x \<Longrightarrow> x \<in> set (dropWhile P s)"
proof -
  assume x: "x \<in> set s" "\<not> P x"
  have "set s = set (takeWhile P s) \<union> set (dropWhile P s)"
    by (metis set_append takeWhile_dropWhile_id)
  then show ?thesis using x by (auto dest: set_takeWhileD)
qed

lemma trim_keeps: "x \<in> set s \<Longrightarrow> \<not> is_space x \<Longrightarrow> x \<in> set (trim s)"
proof -
  assume x: "x \<in> set s" "\<not> is_space x"
  then have "x \<in> set (rev (dropWhile is_space s))" using mem_dropWhile[of x s is_space] by simp
  then have "x \<in> set (dropWhile is_space (rev (dropWhile is_space s)))"
    using x(2) by (rule mem_dropWhile)
  then show ?thesis by (simp add: trim_def)
qed

lemma trim_between:
  assumes "x \<in> set A" "\<not> is_space x" "y \<in> set B" "\<not> is_space y"
  shows "trim (A @ M @ B) = trim_start A @ M @ trim_end B"
proof -
  have 1: "dropWhile is_space (A @ (M @ B)) = dropWhile is_space A @ (M @ B)"
    using assms(1,2) by (rule dropWhile_append1)
  have y: "y \<in> set (rev B)" using assms(3) by simp
  have 2: "dropWhile is_space (rev B @ (rev M @ rev (dropWhile is_space A)))
             = dropWhile is_space (rev B) @ (rev M @ rev (dropWhile is_space A))"
    using y assms(4) by (rule dropWhile_append1)
  have "trim (A @ M @ B) = rev (dropWhile is_space (rev (dropWhile is_space A @ (M @ B))))"
    unfolding trim_def 1 ..
  also have "\<dots> = rev (dropWhile is_space (rev B @ (rev M @ rev (dropWhile is_space A))))"
    by simp
  also have "\<dots> = rev (dropWhile is_space (rev B) @ (rev M @ rev (dropWhile is_space A)))"
    unfolding 2 ..
  also have "\<dots> = trim_start A @ M @ trim_end B"
    by (simp add: trim_start_def trim_end_def)
  finally show ?thesis .
qed

lemma not_space_facts:
  assumes "\<not> is_space x"
  shows "x \<noteq> CR" "x \<noteq> LF" "\<not> is_blank x" "\<not> is_newline x" "\<not> is_eol x"
  using assms is_space_consts is_space_SP
  by (auto simp: is_blank_def is_newline_def is_eol_def)

lemma full_text_steps_keeps:
  "x \<in> set s \<Longrightarrow> \<not> is_space x \<Longrightarrow> x \<in> set (full_text_steps s)"
  unfolding full_text_steps_def
  by (intro collapse_runs_keeps unify_keeps) (simp_all add: not_space_facts)

lemma is_eol_LF: "is_eol LF" "is_eol CR"
  by (simp_all add: is_eol_def)

lemma full_text_steps_between:
  assumes a: "a \<noteq> []" "\<not> is_eol (last a)" and b: "b \<noteq> []" "\<not> is_eol (hd b)"
    and seps: "\<forall>x \<in> set seps. is_eol x" "2 \<le> length (unify_line_endings seps)"
  shows "full_text_steps (a @ seps @ b) = full_text_steps a @ [LF, LF] @ full_text_steps b"
    and "full_text_steps a \<noteq> []" and "last (full_text_steps a) \<noteq> LF"
    and "full_text_steps b \<noteq> []" and "hd (full_text_steps b) \<noteq> LF"
proof -
  let ?m = "length (unify_line_endings seps)"
  let ?nl = "replicate ?m LF"
  let ?ua = "unify_line_endings a" and ?ub = "unify_line_endings b"
  let ?ha = "collapse_runs is_blank 1 [SP] ?ua" and ?hb = "collapse_runs is_blank 1 [SP] ?ub"
  have la: "last a \<noteq> CR" "last a \<noteq> LF" and hb: "hd b \<noteq> CR" "hd b \<noteq> LF"
    using a(2) b(2) by (simp_all add: is_eol_def)
  have us: "unify_line_endings seps = ?nl" using seps(1) by (rule unify_eols_replicate)
  have nlne: "?nl \<noteq> []" "hd ?nl = LF" "last ?nl = LF" using seps(2) by (cases ?m; simp)+
  have "unify_line_endings (a @ (seps @ b)) = ?ua @ unify_line_endings (seps @ b)"
    using la(1) by (intro unify_append) simp
  moreover have "unify_line_endings (seps @ b) = unify_line_endings seps @ ?ub"
    using hb(2) by (intro unify_append) simp
  ultimately have u: "unify_line_endings (a @ seps @ b) = ?ua @ ?nl @ ?ub" using us by simp
  have ua: "?ua \<noteq> []" "last ?ua = last a" using unify_last[OF a] by simp_all
  have ub: "?ub \<noteq> []" "hd ?ub = hd b" using unify_hd[OF b(1) hb(1)] by simp_all
  have nb: "\<not> is_blank LF" using SP_distinct(1) by (simp add: is_blank_def LF_def TAB_def)
  have "collapse_runs is_blank 1 [SP] (?ua @ (?nl @ ?ub))
          = ?ha @ collapse_runs is_blank 1 [SP] (?nl @ ?ub)"
    using nb nlne by (intro collapse_runs_append) simp
  moreover have "collapse_runs is_blank 1 [SP] (?nl @ ?ub)
          = collapse_runs is_blank 1 [SP] ?nl @ ?hb"
    using nb nlne by (intro collapse_runs_append) simp
  moreover have "collapse_runs is_blank 1 [SP] ?nl = ?nl"
    using nb by (intro collapse_runs_none) simp
  ultimately have h: "collapse_runs is_blank 1 [SP] (?ua @ ?nl @ ?ub) = ?ha @ ?nl @ ?hb"
    by simp
  have ha: "?ha \<noteq> []" "last ?ha \<noteq> LF"
    using collapse_runs_last[of "[SP]" ?ua is_blank 1] ua la(2) SP_distinct(1) by auto
  have hbb: "?hb \<noteq> []" "hd ?hb \<noteq> LF"
    using collapse_runs_hd[of ?ub "[SP]" is_blank 1] ub hb(2) SP_distinct(1) by auto
  have "collapse_runs is_newline 3 [LF, LF] (?ha @ (?nl @ ?hb))
          = collapse_runs is_newline 3 [LF, LF] ?ha @ collapse_runs is_newline 3 [LF, LF] (?nl @ ?hb)"
    using ha by (intro collapse_runs_append) (simp add: is_newline_def)
  moreover have "collapse_runs is_newline 3 [LF, LF] (?nl @ ?hb)
          = collapse_runs is_newline 3 [LF, LF] ?nl @ collapse_runs is_newline 3 [LF, LF] ?hb"
    using hbb by (intro collapse_runs_append) (simp add: is_newline_def)
  moreover have "collapse_runs is_newline 3 [LF, LF] ?nl = [LF, LF]"
  proof -
    have "collapse_runs is_newline 3 [LF, LF] ?nl = (if 3 \<le> length ?nl then [LF, LF] else ?nl)"
      using nlne(1) by (intro collapse_runs_all) (simp_all add: is_newline_def)
    moreover have "?m = 2 \<Longrightarrow> ?nl = [LF, LF]" by (simp add: numeral_2_eq_2)
    ultimately show ?thesis using seps(2) by (cases "3 \<le> ?m") auto
  qed
  ultimately have v: "collapse_runs is_newline 3 [LF, LF] (?ha @ ?nl @ ?hb)
          = collapse_runs is_newline 3 [LF, LF] ?ha @ [LF, LF] @ collapse_runs is_newline 3 [LF, LF] ?hb"
    by simp
  show "full_text_steps (a @ seps @ b) = full_text_steps a @ [LF, LF] @ full_text_steps b"
    unfolding full_text_steps_def u h v ..
  have "collapse_runs is_newline 3 [LF, LF] ?ha \<noteq> [] \<and>
        last (collapse_runs is_newline 3 [LF, LF] ?ha) = last ?ha"
    using ha by (intro collapse_runs_last_other) (simp_all add: is_newline_def)
  then show "full_text_steps a \<noteq> []" and "last (full_text_steps a) \<noteq> LF"
    using ha(2) by (simp_all add: full_text_steps_def)
  have "collapse_runs is_newline 3 [LF, LF] ?hb \<noteq> [] \<and>
        hd (collapse_runs is_newline 3 [LF, LF] ?hb) = hd ?hb"
    using hbb by (intro collapse_runs_hd_other) (simp_all add: is_newline_def)
  then show "full_text_steps b \<noteq> []" and "hd (full_text_steps b) \<noteq> LF"
    using hbb(2) by (simp_all add: full_text_steps_def)
qed

lemma paragraphs_raw:
  assumes a: "list_ex non_space a" "\<not> is_eol (last a)"
    and b: "list_ex non_space b" "\<not> is_eol (hd b)"
    and seps: "list_all is_eol seps" "2 \<le> length (unify_line_endings seps)"
  shows "normalizePreserveParagraphs (a @ seps @ b)
           = trim_start (full_text_steps a) @ [LF, LF] @ trim_end (full_text_steps b)"
    and "trim_start (full_text_steps a) \<noteq> []" and "last (trim_start (full_text_steps a)) \<noteq> LF"
    and "trim_end (full_text_steps b) \<noteq> []" and "hd (trim_end (full_text_steps b)) \<noteq> LF"
    and "single_spaced (normalizeForWords (a @ seps @ b))"
proof -
  from a(1) obtain x where x: "x \<in> set a" "\<not> is_space x"
    by (auto simp: list_ex_iff non_space_def)
  from b(1) obtain y where y: "y \<in> set b" "\<not> is_space y"
    by (auto simp: list_ex_iff non_space_def)
  have ane: "a \<noteq> []" and bne: "b \<noteq> []" using x(1) y(1) by auto
  have s: "\<forall>x \<in> set seps. is_eol x" using seps(1) by (simp add: list_all_iff)
  note st = full_text_steps_between[OF ane a(2) bne b(2) s seps(2)]
  have xa: "x \<in> set (full_text_steps a)" using x by (rule full_text_steps_keeps)
  have yb: "y \<in> set (full_text_steps b)" using y by (rule full_text_steps_keeps)
  have "normalizePreserveParagraphs (a @ seps @ b) = trim (full_text_steps (a @ seps @ b))"
    by (simp add: normalizePreserveParagraphs_steps full_text_steps_def)
  also have "\<dots> = trim (full_text_steps a @ [LF, LF] @ full_text_steps b)"
    unfolding st(1) ..
  also have "\<dots> = trim_start (full_text_steps a) @ [LF, LF] @ trim_end (full_text_steps b)"
    using xa x(2) yb y(2) by (rule trim_between)
  finally show "normalizePreserveParagraphs (a @ seps @ b)
           = trim_start (full_text_steps a) @ [LF, LF] @ trim_end (full_text_steps b)" .
  have xs: "x \<in> set (trim_start (full_text_steps a))"
    unfolding trim_start_def using xa x(2) by (rule mem_dropWhile)
  then show sne: "trim_start (full_text_steps a) \<noteq> []" by auto
  have "last (trim_start (full_text_steps a)) = last (full_text_steps a)"
    using sne unfolding trim_start_def by (rule last_dropWhile)
  then show "last (trim_start (full_text_steps a)) \<noteq> LF" using st(3) by simp
  have "y \<in> set (rev (full_text_steps b))" using yb by simp
  then have "y \<in> set (dropWhile is_space (rev (full_text_steps b)))"
    using y(2) by (rule mem_dropWhile)
  then have ye: "y \<in> set (trim_end (full_text_steps b))" by (simp add: trim_end_def)
  then show ene: "trim_end (full_text_steps b) \<noteq> []" by auto
  have "rev (full_text_steps b)
          = takeWhile is_space (rev (full_text_steps b)) @ dropWhile is_space (rev (full_text_steps b))"
    by simp
  then have "full_text_steps b
          = trim_end (full_text_steps b) @ rev (takeWhile is_space (rev (full_text_steps b)))"
    unfolding trim_end_def by (metis rev_append rev_rev_ident)
  then have "hd (full_text_steps b) = hd (trim_end (full_text_steps b))"
    using ene by (metis hd_append2)
  then show "hd (trim_end (full_text_steps b)) \<noteq> LF" using st(5) by simp
  have "x \<in> set (a @ seps @ b)" using x(1) by simp
  then have "x \<in> set (collapse_runs is_space 1 [SP] (a @ seps @ b))"
    using x(2) by (rule collapse_runs_keeps)
  then have "x \<in> set (normalizeForWords (a @ seps @ b))"
    unfolding normalizeForWords_steps using x(2) by (rule trim_keeps)
  then have "normalizeForWords (a @ seps @ b) \<noteq> []" by auto
  then show "single_spaced (normalizeForWords (a @ seps @ b))"
    by (rule normalizeForWords_single_spaced)
qed

text \<open>
  Claim C8, as stated: two paragraphs separated by blank lines come out with exactly one
  double newline between them. A blank line that holds a space or a tab interrupts the run
  of newlines: the tab becomes a space, no run of three newlines exists, and the result has
  no double newline at all, with one such line as with three.
\<close>

theorem blank_lines_counterexample:
  "normalizePreserveParagraphs (js ''First para.'' @ [LF, TAB, LF] @ js ''Second one.'')
     = js ''First para.'' @ [LF, SP, LF] @ js ''Second one.'' \<and>
   \<not> has_double_newline
       (normalizePreserveParagraphs (js ''First para.'' @ [LF, TAB, LF] @ js ''Second one.'')) \<and>
   normalizePreserveParagraphs
       (js ''First para.'' @ [LF, SP, LF, TAB, LF, SP, SP, LF] @ js ''Second one.'')
     = js ''First para.'' @ [LF, SP, LF, SP, LF, SP, LF] @ js ''Second one.'' \<and>
   \<not> has_double_newline
       (normalizePreserveParagraphs
          (js ''First para.'' @ [LF, SP, LF, TAB, LF, SP, SP, LF] @ js ''Second one.''))"
  by code_simp

text \<open>
  Claim C8, amended. \<open>normalizePreserveParagraphs\<close> (the spec's \<open>normalizeForFullText\<close>)
  turns CRLF and CR into one newline each, then collapses every run of spaces and tabs into
  one space, then collapses every run of three or more newlines into two, then trims; and
  \<open>normalizeForWords\<close> collapses every run of whitespace into one space and trims, so its
  result is single-line and single-spaced. In particular two raw paragraphs (any text that
  holds a visible character) separated by empty lines, that is by a run of two or more line
  endings (LF, CRLF or CR in any mix) with nothing between them, come out with exactly one
  double newline between them, however many empty lines there were; the word view of the
  same text is single-line and single-spaced.
\<close>

theorem normalizers_spec:
  "normalizePreserveParagraphs text
     = trim (collapse_runs is_newline 3 [LF, LF]
         (collapse_runs is_blank 1 [SP] (unify_line_endings text))) \<and>
   normalizePreserveParagraphs text = trim (full_text_steps text) \<and>
   normalizeForWords text = trim (collapse_runs is_space 1 [SP] text) \<and>
   (normalizeForWords text \<noteq> [] \<longrightarrow> single_spaced (normalizeForWords text)) \<and>
   (list_ex non_space a \<and> \<not> is_eol (last a) \<and> list_ex non_space b \<and> \<not> is_eol (hd b) \<and>
    list_all is_eol seps \<and> 2 \<le> length (unify_line_endings seps) \<longrightarrow>
      normalizePreserveParagraphs (a @ seps @ b)
        = trim_start (full_text_steps a) @ [LF, LF] @ trim_end (full_text_steps b) \<and>
      trim_start (full_text_steps a) \<noteq> [] \<and> last (trim_start (full_text_steps a)) \<noteq> LF \<and>
      trim_end (full_text_steps b) \<noteq> [] \<and> hd (trim_end (full_text_steps b)) \<noteq> LF \<and>
      single_spaced (normalizeForWords (a @ seps @ b))) \<and>
   (single_spaced p1 \<and> single_spaced p2 \<and> 2 \<le> n \<and> eol \<in> {[LF], [CR, LF], [CR]} \<longrightarrow>
      normalizePreserveParagraphs (p1 @ concat (replicate n eol) @ p2) = p1 @ [LF, LF] @ p2 \<and>
      normalizeForWords (p1 @ concat (replicate n eol) @ p2) = p1 @ [SP] @ p2) \<and>
   normalizePreserveParagraphs
       (js '' First  para.'' @ [CR, LF, CR, LF, CR, LF, CR, LF] @ js ''Second'' @ [TAB] @ js ''para.  '' @ [LF])
     = js ''First para.'' @ [LF, LF] @ js ''Second para.'' \<and>
   normalizeForWords
       (js '' First  para.'' @ [CR, LF, CR, LF, CR, LF, CR, LF] @ js ''Second'' @ [TAB] @ js ''para.  '' @ [LF])
     = js ''First para. Second para.''"
proof -
  have f: "normalizePreserveParagraphs text = trim (full_text_steps text)"
    by (simp add: normalizePreserveParagraphs_steps full_text_steps_def)
  have r: "list_ex non_space a \<and> \<not> is_eol (last a) \<and> list_ex non_space b \<and> \<not> is_eol (hd b) \<and>
    list_all is_eol seps \<and> 2 \<le> length (unify_line_endings seps) \<longrightarrow>
      normalizePreserveParagraphs (a @ seps @ b)
        = trim_start (full_text_steps a) @ [LF, LF] @ trim_end (full_text_steps b) \<and>
      trim_start (full_text_steps a) \<noteq> [] \<and> last (trim_start (full_text_steps a)) \<noteq> LF \<and>
      trim_end (full_text_steps b) \<noteq> [] \<and> hd (trim_end (full_text_steps b)) \<noteq> LF \<and>
      single_spaced (normalizeForWords (a @ seps @ b))"
    using paragraphs_raw[of a b seps] by blast
  have p: "single_spaced p1 \<and> single_spaced p2 \<and> 2 \<le> n \<and> eol \<in> {[LF], [CR, LF], [CR]} \<longrightarrow>
      normalizePreserveParagraphs (p1 @ concat (replicate n eol) @ p2) = p1 @ [LF, LF] @ p2 \<and>
      normalizeForWords (p1 @ concat (replicate n eol) @ p2) = p1 @ [SP] @ p2"
    using paragraphs_full_text[of p1 p2 n eol] paragraphs_words[of p1 p2 n eol] by simp
  have c1: "normalizePreserveParagraphs
       (js '' First  para.'' @ [CR, LF, CR, LF, CR, LF, CR, LF] @ js ''Second'' @ [TAB] @ js ''para.  '' @ [LF])
     = js ''First para.'' @ [LF, LF] @ js ''Second para.''"
    by code_simp
  have c2: "normalizeForWords
       (js '' First  para.'' @ [CR, LF, CR, LF, CR, LF, CR, LF] @ js ''Second'' @ [TAB] @ js ''para.  '' @ [LF])
     = js ''First para. Second para.''"
    by code_simp
  show ?thesis
    using normalizePreserveParagraphs_steps[of "text"] f normalizeForWords_steps[of "text"]
      normalizeForWords_single_spaced[of "text"] r p c1 c2
    by blast
qed

theorem normalizers_spec_witness:
  "list_ex non_space (js ''First  para,'' @ [LF] @ js ''line two. '') \<and>
   \<not> is_eol (last (js ''First  para,'' @ [LF] @ js ''line two. '')) \<and>
   list_ex non_space ([TAB] @ js ''Second'' @ [TAB] @ js ''one.'') \<and>
   \<not> is_eol (hd ([TAB] @ js ''Second'' @ [TAB] @ js ''one.'')) \<and>
   list_all is_eol [CR, LF, LF, CR, CR, LF] \<and>
   unify_line_endings [CR, LF, LF, CR, CR, LF] = [LF, LF, LF, LF] \<and>
   normalizePreserveParagraphs
       ((js ''First  para,'' @ [LF] @ js ''line two. '') @ [CR, LF, LF, CR, CR, LF]
          @ ([TAB] @ js ''Second'' @ [TAB] @ js ''one.''))
     = (js ''First para,'' @ [LF] @ js ''line two. '') @ [LF, LF] @ js '' Second one.'' \<and>
   single_spaced (normalizeForWords
       ((js ''First  para,'' @ [LF] @ js ''line two. '') @ [CR, LF, LF, CR, CR, LF]
          @ ([TAB] @ js ''Second'' @ [TAB] @ js ''one.''))) \<and>
   single_spaced (js ''First para.'') \<and> single_spaced (js ''Second one.'') \<and> (2::nat) \<le> 4 \<and>
   normalizePreserveParagraphs (js ''First para.'' @ concat (replicate 4 [CR, LF]) @ js ''Second one.'')
     = js ''First para.'' @ [LF, LF] @ js ''Second one.'' \<and>
   normalizeForWords (js ''First para.'' @ concat (replicate 4 [CR, LF]) @ js ''Second one.'')
     = js ''First para.'' @ [SP] @ js ''Second one.'' \<and>
   normalizeForWords (js '' a   b '') = js ''a b'' \<and>
   single_spaced (normalizeForWords (js '' a   b ''))"
proof -
  let ?a = "js ''First  para,'' @ [LF] @ js ''line two. ''"
  let ?b = "[TAB] @ js ''Second'' @ [TAB] @ js ''one.''"
  let ?seps = "[CR, LF, LF, CR, CR, LF]"
  have h: "list_ex non_space ?a" "\<not> is_eol (last ?a)" "list_ex non_space ?b"
    "\<not> is_eol (hd ?b)" "list_all is_eol ?seps"
    by code_simp+
  have u: "unify_line_endings ?seps = [LF, LF, LF, LF]" by code_simp
  then have l: "2 \<le> length (unify_line_endings ?seps)" by simp
  have ta: "trim_start (full_text_steps ?a) = js ''First para,'' @ [LF] @ js ''line two. ''"
    by code_simp
  have tb: "trim_end (full_text_steps ?b) = js '' Second one.''" by code_simp
  have s: "single_spaced (js ''First para.'')" "single_spaced (js ''Second one.'')"
    by code_simp+
  have n: "(2::nat) \<le> 4" by simp
  have e: "[CR, LF] \<in> {[LF], [CR, LF], [CR]}" by simp
  have w: "normalizeForWords (js '' a   b '') = js ''a b''" by code_simp
  then have ne: "normalizeForWords (js '' a   b '') \<noteq> []" by (simp add: js_def)
  note t = normalizers_spec[where ?text = "js '' a   b ''" and a = ?a and b = ?b and seps = ?seps
      and ?p1.0 = "js ''First para.''" and ?p2.0 = "js ''Second one.''" and n = 4 and eol = "[CR, LF]"]
  from t h l
  have r1: "normalizePreserveParagraphs (?a @ ?seps @ ?b)
        = trim_start (full_text_steps ?a) @ [LF, LF] @ trim_end (full_text_steps ?b)"
    and r2: "single_spaced (normalizeForWords (?a @ ?seps @ ?b))"
    by blast+
  have r1': "normalizePreserveParagraphs (?a @ ?seps @ ?b)
        = (js ''First para,'' @ [LF] @ js ''line two. '') @ [LF, LF] @ js '' Second one.''"
    using r1 unfolding ta tb .
  from t s n e ne
  have "normalizePreserveParagraphs (js ''First para.'' @ concat (replicate 4 [CR, LF]) @ js ''Second one.'')
     = js ''First para.'' @ [LF, LF] @ js ''Second one.''"
    and "normalizeForWords (js ''First para.'' @ concat (replicate 4 [CR, LF]) @ js ''Second one.'')
     = js ''First para.'' @ [SP] @ js ''Second one.''"
    and "single_spaced (normalizeForWords (js '' a   b ''))"
    by blast+
  then show ?thesis using h u r1' r2 s n w by blast
qed

end
